theory Spec2Isabelle
  imports Complex_Main "HOL-Library.Monad_Syntax"
begin

section \<open>JavaScript arrays of numbers\<close>

text \<open>
  The grid and every piece are JavaScript arrays of arrays of the numbers 0 and 1. They are
  modelled as lists of lists of naturals. Three things a JavaScript array does that a list
  does not are written out:
  \<^item> a read past the end of an array yields \<open>undefined\<close> (\<open>js_index\<close> returns
    \<open>None\<close>, \<open>rd\<close> returns \<open>Undefined\<close>);
  \<^item> a read or a write through a row that is \<open>undefined\<close> throws a TypeError: every
    function below that may throw returns an \<open>option\<close>, and \<open>None\<close> is the thrown
    exception;
  \<^item> a write past the end of a row would grow the row and leave holes. No write of this
    program lands there on an N-by-N grid; the model has no holes, and \<open>wr\<close> reports such a
    write as \<open>None\<close> too.
\<close>

type_synonym matrix = "nat list list"

datatype jsnum = Undefined | Num nat

definition js_index :: "'a list \<Rightarrow> nat \<Rightarrow> 'a option" where
  "js_index xs i = (if i < length xs then Some (xs ! i) else None)"

definition rd :: "matrix \<Rightarrow> nat \<Rightarrow> nat \<Rightarrow> jsnum option" where
  "rd m i j =
     (case js_index m i of
        None \<Rightarrow> None
      | Some row \<Rightarrow> Some (case js_index row j of None \<Rightarrow> Undefined | Some v \<Rightarrow> Num v))"

definition wr :: "matrix \<Rightarrow> nat \<Rightarrow> nat \<Rightarrow> nat \<Rightarrow> matrix option" where
  "wr m i j v =
     (case js_index m i of
        None \<Rightarrow> None
      | Some row \<Rightarrow> if j < length row then Some (m[i := row[j := v]]) else None)"

section \<open>BoardManager\<close>

text \<open>
  \<open>board.js\<close> holds the class twice (the browser's copy and the server's); the two copies
  have the same bodies. \<open>boardSize\<close> is the constructor's argument.
\<close>

record board_manager =
  boardSize :: nat
  board :: matrix

text \<open>\<open>createEmptyBoard\<close>: \<open>boardSize\<close> rows of \<open>boardSize\<close> zeros.\<close>

definition createEmptyBoard :: "board_manager \<Rightarrow> board_manager" where
  "createEmptyBoard bm = bm\<lparr>board := replicate (boardSize bm) (replicate (boardSize bm) 0)\<rparr>"

text \<open>
  The two nested \<open>for\<close> loops over a piece visit the index pairs
  \<open>List.product [0..<pRows] [0..<pCols]\<close> in this order (row-major). The overlap loop of
  \<open>canPlace\<close> returns \<open>false\<close> at the first filled piece cell that meets a filled grid
  cell; \<open>&&\<close> reads the grid only when the piece cell is 1.
\<close>

fun overlap_loop :: "matrix \<Rightarrow> matrix \<Rightarrow> nat \<Rightarrow> nat \<Rightarrow> (nat \<times> nat) list \<Rightarrow> bool option" where
  "overlap_loop brd piece row col [] = Some True"
| "overlap_loop brd piece row col ((i, j) # ijs) =
     do {
       p \<leftarrow> rd piece i j;
       if p = Num 1 then
         do {
           b \<leftarrow> rd brd (row + i) (col + j);
           if b = Num 1 then Some False else overlap_loop brd piece row col ijs
         }
       else overlap_loop brd piece row col ijs
     }"

definition canPlace :: "board_manager \<Rightarrow> matrix \<Rightarrow> int \<Rightarrow> int \<Rightarrow> bool option" where
  "canPlace bm piece row col =
     do {
       p0 \<leftarrow> js_index piece 0;
       let pRows = length piece;
       let pCols = length p0;
       if row < 0 \<or> col < 0 \<or> row + int pRows > int (boardSize bm)
            \<or> col + int pCols > int (boardSize bm)
       then Some False
       else overlap_loop (board bm) piece (nat row) (nat col)
              (List.product [0..<pRows] [0..<pCols])
     }"

text \<open>\<open>canPlaceOnBoard\<close> is \<open>canPlace\<close> on a grid passed as an argument.\<close>

definition canPlaceOnBoard :: "nat \<Rightarrow> matrix \<Rightarrow> matrix \<Rightarrow> int \<Rightarrow> int \<Rightarrow> bool option" where
  "canPlaceOnBoard n brd piece row col =
     do {
       p0 \<leftarrow> js_index piece 0;
       let pRows = length piece;
       let pCols = length p0;
       if row < 0 \<or> col < 0 \<or> row + int pRows > int n \<or> col + int pCols > int n
       then Some False
       else overlap_loop brd piece (nat row) (nat col) (List.product [0..<pRows] [0..<pCols])
     }"

text \<open>The write loop of \<open>placePiece\<close>: every piece cell equal to 1 sets its grid cell to 1.\<close>

fun place_loop :: "matrix \<Rightarrow> matrix \<Rightarrow> nat \<Rightarrow> nat \<Rightarrow> (nat \<times> nat) list \<Rightarrow> matrix option" where
  "place_loop brd piece row col [] = Some brd"
| "place_loop brd piece row col ((r, c) # rcs) =
     do {
       p \<leftarrow> rd piece r c;
       if p = Num 1 then
         do {
           brd' \<leftarrow> wr brd (row + r) (col + c) 1;
           place_loop brd' piece row col rcs
         }
       else place_loop brd piece row col rcs
     }"

definition placePiece :: "board_manager \<Rightarrow> matrix \<Rightarrow> int \<Rightarrow> int \<Rightarrow> (bool \<times> board_manager) option" where
  "placePiece bm pieceMatrix row col =
     do {
       ok \<leftarrow> canPlace bm pieceMatrix row col;
       if \<not> ok then Some (False, bm)
       else
         do {
           p0 \<leftarrow> js_index pieceMatrix 0;
           brd' \<leftarrow> place_loop (board bm) pieceMatrix (nat row) (nat col)
                     (List.product [0..<length pieceMatrix] [0..<length p0]);
           Some (True, bm\<lparr>board := brd'\<rparr>)
         }
     }"

text \<open>
  \<open>checkLines\<close>. A row is pushed when \<open>board[r].every(val => val === 1)\<close>; a column is
  pushed unless the inner loop finds a cell \<open>=== 0\<close> and breaks.
\<close>

record line_data =
  rows :: "nat list"
  cols :: "nat list"

fun full_rows_loop :: "matrix \<Rightarrow> nat list \<Rightarrow> nat list option" where
  "full_rows_loop brd [] = Some []"
| "full_rows_loop brd (r # rs) =
     do {
       row \<leftarrow> js_index brd r;
       rest \<leftarrow> full_rows_loop brd rs;
       Some (if list_all (\<lambda>val. val = 1) row then r # rest else rest)
     }"

fun col_is_full :: "matrix \<Rightarrow> nat \<Rightarrow> nat list \<Rightarrow> bool option" where
  "col_is_full brd c [] = Some True"
| "col_is_full brd c (r # rs) =
     do {
       v \<leftarrow> rd brd r c;
       if v = Num 0 then Some False else col_is_full brd c rs
     }"

fun full_cols_loop :: "nat \<Rightarrow> matrix \<Rightarrow> nat list \<Rightarrow> nat list option" where
  "full_cols_loop n brd [] = Some []"
| "full_cols_loop n brd (c # cs) =
     do {
       isFull \<leftarrow> col_is_full brd c [0..<n];
       rest \<leftarrow> full_cols_loop n brd cs;
       Some (if isFull then c # rest else rest)
     }"

definition checkLines :: "board_manager \<Rightarrow> line_data option" where
  "checkLines bm =
     do {
       rs \<leftarrow> full_rows_loop (board bm) [0..<boardSize bm];
       cs \<leftarrow> full_cols_loop (boardSize bm) (board bm) [0..<boardSize bm];
       Some \<lparr>rows = rs, cols = cs\<rparr>
     }"

text \<open>
  \<open>clearLines\<close>: for each listed row, every cell of it is set to 0 (left to right); then
  for each listed column, every cell of it (top to bottom).
\<close>

fun clear_cells :: "matrix \<Rightarrow> (nat \<times> nat) list \<Rightarrow> matrix option" where
  "clear_cells brd [] = Some brd"
| "clear_cells brd ((r, c) # rcs) =
     do {
       brd' \<leftarrow> wr brd r c 0;
       clear_cells brd' rcs
     }"

definition row_cells :: "nat \<Rightarrow> nat list \<Rightarrow> (nat \<times> nat) list" where
  "row_cells n rs = List.product rs [0..<n]"

definition col_cells :: "nat \<Rightarrow> nat list \<Rightarrow> (nat \<times> nat) list" where
  "col_cells n cs = map (\<lambda>(c, r). (r, c)) (List.product cs [0..<n])"

definition clearLines :: "board_manager \<Rightarrow> line_data \<Rightarrow> board_manager option" where
  "clearLines bm lineData =
     do {
       b1 \<leftarrow> clear_cells (board bm) (row_cells (boardSize bm) (rows lineData));
       b2 \<leftarrow> clear_cells b1 (col_cells (boardSize bm) (cols lineData));
       Some (bm\<lparr>board := b2\<rparr>)
     }"

text \<open>
  \<open>simulatePlaceAndClear\<close> writes the piece with no placement check, then detects and clears
  on the grid it was given. Its loops are the loops above, written out again in the source.
  With an empty piece its outer loop does not run, so \<open>piece[0].length\<close> is not read.
\<close>

definition simulatePlaceAndClear :: "nat \<Rightarrow> matrix \<Rightarrow> matrix \<Rightarrow> nat \<Rightarrow> nat \<Rightarrow> matrix option" where
  "simulatePlaceAndClear n brd piece r c =
     do {
       b1 \<leftarrow> (case piece of
               [] \<Rightarrow> Some brd
             | p0 # _ \<Rightarrow> place_loop brd piece r c (List.product [0..<length piece] [0..<length p0]));
       rowsToRemove \<leftarrow> full_rows_loop b1 [0..<n];
       colsToRemove \<leftarrow> full_cols_loop n b1 [0..<n];
       b2 \<leftarrow> clear_cells b1 (row_cells n rowsToRemove);
       clear_cells b2 (col_cells n colsToRemove)
     }"

text \<open>
  \<open>findValidPosition\<close>: \<open>r\<close> runs from 0 to \<open>boardSize - piece.length\<close> and \<open>c\<close> from 0 to
  \<open>boardSize - piece[0].length\<close>, both inclusive (no iteration when the bound is negative);
  the result is the first position that \<open>canPlaceOnBoard\<close> accepts, \<open>None\<close> for \<open>null\<close>.
\<close>

fun find_loop :: "nat \<Rightarrow> matrix \<Rightarrow> matrix \<Rightarrow> (nat \<times> nat) list \<Rightarrow> (nat \<times> nat) option option" where
  "find_loop n brd piece [] = Some None"
| "find_loop n brd piece ((r, c) # rcs) =
     do {
       ok \<leftarrow> canPlaceOnBoard n brd piece (int r) (int c);
       if ok then Some (Some (r, c)) else find_loop n brd piece rcs
     }"

definition findValidPosition :: "nat \<Rightarrow> matrix \<Rightarrow> matrix \<Rightarrow> (nat \<times> nat) option option" where
  "findValidPosition n brd piece =
     do {
       p0 \<leftarrow> js_index piece 0;
       find_loop n brd piece (List.product [0..<Suc n - length piece] [0..<Suc n - length p0])
     }"

section \<open>Game constants\<close>

definition BOARD_SIZE :: nat where "BOARD_SIZE = 8"
definition PIECES_PER_ROUND :: nat where "PIECES_PER_ROUND = 3"
definition MAX_GENERATION_ATTEMPTS :: nat where "MAX_GENERATION_ATTEMPTS = 50"
definition BASE_POINTS_PER_BLOCK :: nat where "BASE_POINTS_PER_BLOCK = 1"
definition LINE_CLEAR_BASE_POINTS :: nat where "LINE_CLEAR_BASE_POINTS = 10"
definition LINE_CLEAR_MULTIPLIER :: nat where "LINE_CLEAR_MULTIPLIER = 2"

definition P1 :: matrix where "P1 = [[1,1,1,1]]"
definition P2 :: matrix where "P2 = [[1,1,1]]"
definition P3 :: matrix where "P3 = [[1,1]]"
definition P4 :: matrix where "P4 = [[1]]"
definition P5 :: matrix where "P5 = [[1,0,0], [1,0,0], [1,1,1]]"
definition P6 :: matrix where "P6 = [[1,0], [1,1]]"
definition P7 :: matrix where "P7 = [[1,0], [1,0], [1,1]]"
definition P8 :: matrix where "P8 = [[0,1,0], [1,1,1]]"
definition P9 :: matrix where "P9 = [[1,1,0], [0,1,1]]"
definition P10 :: matrix where "P10 = [[1,1,1], [1,1,1], [1,1,1]]"
definition P11 :: matrix where "P11 = [[1,1], [1,1]]"

text \<open>\<open>Object.values(RAW_SHAPES)\<close>: the shapes in the order of their keys' insertion.\<close>

definition RAW_SHAPES :: "matrix list" where
  "RAW_SHAPES = [P1, P2, P3, P4, P5, P6, P7, P8, P9, P10, P11]"

definition COLORS :: "string list" where
  "COLORS = [''bg-cyan-500'', ''bg-blue-500'', ''bg-orange-500'', ''bg-yellow-500'',
             ''bg-green-500'', ''bg-purple-500'', ''bg-red-500'', ''bg-pink-500'']"

section \<open>PieceGenerator\<close>

text \<open>
  \<open>rotateMatrix\<close> fills a fresh \<open>cols\<close>-by-\<open>rows\<close> matrix of zeros with
  \<open>newMatrix[c][rows - 1 - r] = matrix[r][c]\<close>. A row of the argument shorter than its
  first row would store \<open>undefined\<close>; the cells of the model are numbers, and the model
  stops there (\<open>None\<close>).
\<close>

fun rotate_loop :: "matrix \<Rightarrow> matrix \<Rightarrow> nat \<Rightarrow> (nat \<times> nat) list \<Rightarrow> matrix option" where
  "rotate_loop m newMatrix nRows [] = Some newMatrix"
| "rotate_loop m newMatrix nRows ((r, c) # rcs) =
     do {
       v \<leftarrow> rd m r c;
       case v of
         Undefined \<Rightarrow> None
       | Num x \<Rightarrow>
           do {
             newMatrix' \<leftarrow> wr newMatrix c (nRows - 1 - r) x;
             rotate_loop m newMatrix' nRows rcs
           }
     }"

definition rotateMatrix :: "matrix \<Rightarrow> matrix option" where
  "rotateMatrix m =
     do {
       m0 \<leftarrow> js_index m 0;
       let nRows = length m;
       let nCols = length m0;
       rotate_loop m (replicate nCols (replicate nRows 0)) nRows
         (List.product [0..<nRows] [0..<nCols])
     }"

text \<open>
  \<open>getAllRotations\<close>: four rounds; the current matrix is pushed unless a matrix with the
  same \<open>JSON.stringify\<close> text is already in the list. On arrays of arrays of numbers the
  texts are equal exactly when the matrices are, so the test is list membership.
\<close>

fun rotations_loop :: "nat \<Rightarrow> matrix \<Rightarrow> matrix list \<Rightarrow> matrix list option" where
  "rotations_loop 0 cur rotations = Some rotations"
| "rotations_loop (Suc k) cur rotations =
     do {
       let rotations' = (if cur \<in> set rotations then rotations else rotations @ [cur]);
       cur' \<leftarrow> rotateMatrix cur;
       rotations_loop k cur' rotations'
     }"

definition getAllRotations :: "matrix \<Rightarrow> matrix list option" where
  "getAllRotations m = rotations_loop 4 m []"




text \<open>
  A piece instance. \<open>piece_id\<close> stands for \<open>Date.now() + Math.random()\<close>, an opaque number.
\<close>

record piece_instance =
  matrix :: matrix
  color :: string
  piece_id :: nat

text \<open>
  \<open>Math.random\<close> is modelled by a random source that the caller passes in and gets back:
  a list of naturals read from the front (an exhausted source keeps answering 0).
  \<open>random_index n\<close> is \<open>Math.floor(Math.random() * n)\<close>: some index below \<open>n\<close>
  (0 when \<open>n\<close> is 0), and every such index for some source.
  \<open>shuffle\<close> is \<open>sort(() => Math.random() - 0.5)\<close>: the order that a sort produces with
  a comparator that ignores its arguments depends on the engine; the model lets the random
  source pick the permutation, by inserting each element at a drawn position.
\<close>

type_synonym rng = "nat list"

definition next_random :: "rng \<Rightarrow> nat \<times> rng" where
  "next_random g = (case g of [] \<Rightarrow> (0, []) | x # g' \<Rightarrow> (x, g'))"

definition random_index :: "nat \<Rightarrow> rng \<Rightarrow> nat \<times> rng" where
  "random_index n g = (let (x, g') = next_random g in (if n = 0 then 0 else x mod n, g'))"

fun shuffle :: "'a list \<Rightarrow> rng \<Rightarrow> 'a list \<times> rng" where
  "shuffle [] g = ([], g)"
| "shuffle (x # xs) g =
     (let (ys, g1) = shuffle xs g;
          (k, g2) = random_index (Suc (length ys)) g1
      in (take k ys @ x # drop k ys, g2))"

text \<open>
  The \<open>for (shapeVariant of rotations)\<close> loop: the first variant with a valid position
  becomes the found piece and is simulated on \<open>tempBoard\<close>.
\<close>

fun variants_loop ::
  "nat \<Rightarrow> matrix \<Rightarrow> matrix list \<Rightarrow> rng \<Rightarrow> (piece_instance option \<times> matrix \<times> rng) option" where
  "variants_loop n tempBoard [] g = Some (None, tempBoard, g)"
| "variants_loop n tempBoard (shapeVariant # vs) g =
     do {
       placement \<leftarrow> findValidPosition n tempBoard shapeVariant;
       case placement of
         None \<Rightarrow> variants_loop n tempBoard vs g
       | Some (r, c) \<Rightarrow>
           do {
             let (ci, g1) = random_index (length COLORS) g;
             let (idn, g2) = next_random g1;
             let foundPiece = \<lparr>matrix = shapeVariant, color = COLORS ! ci, piece_id = idn\<rparr>;
             tempBoard' \<leftarrow> simulatePlaceAndClear n tempBoard (matrix foundPiece) r c;
             Some (Some foundPiece, tempBoard', g2)
           }
     }"

text \<open>
  The \<open>while (!foundPiece && attempts < MAX_GENERATION_ATTEMPTS)\<close> loop. The result
  carries the final value of \<open>attempts\<close>. An empty library makes \<open>randomShape\<close>
  undefined, and \<open>rotateMatrix\<close> then throws.
\<close>

function attempts_loop ::
  "nat \<Rightarrow> matrix list \<Rightarrow> matrix \<Rightarrow> nat \<Rightarrow> rng
     \<Rightarrow> (piece_instance option \<times> matrix \<times> nat \<times> rng) option" where
  "attempts_loop n lib tempBoard attempts g =
     (if attempts < MAX_GENERATION_ATTEMPTS then
        do {
          let (si, g1) = random_index (length lib) g;
          randomShape \<leftarrow> js_index lib si;
          rotations \<leftarrow> getAllRotations randomShape;
          let (rotations', g2) = shuffle rotations g1;
          (foundPiece, tempBoard', g3) \<leftarrow> variants_loop n tempBoard rotations' g2;
          case foundPiece of
            Some p \<Rightarrow> Some (Some p, tempBoard', attempts + 1, g3)
          | None \<Rightarrow> attempts_loop n lib tempBoard' (attempts + 1) g3
        }
      else Some (None, tempBoard, attempts, g))"
  by pat_completeness auto
termination
  by (relation "measure (\<lambda>(n, lib, tempBoard, attempts, g). MAX_GENERATION_ATTEMPTS - attempts)") auto

declare attempts_loop.simps [simp del]

text \<open>
  The fallback after the loop: a piece from \<open>shapeLibrary[Math.floor(Math.random() *
  shapeLibrary.length)]\<close> as it stands. The server's last check (\<open>!foundPiece.matrix ||
  !foundPiece.color\<close>) replaces a piece whose matrix is undefined by the single block; an
  array and a colour of \<open>COLORS\<close> are truthy, so it changes no other piece.
\<close>

definition fallback_piece :: "matrix list \<Rightarrow> rng \<Rightarrow> piece_instance \<times> rng" where
  "fallback_piece lib g =
     (let (si, g1) = random_index (length lib) g;
          (ci, g2) = random_index (length COLORS) g1;
          (idn, g3) = next_random g2
      in case js_index lib si of
           Some randomShape \<Rightarrow> (\<lparr>matrix = randomShape, color = COLORS ! ci, piece_id = idn\<rparr>, g3)
         | None \<Rightarrow>
             (let (idn', g4) = next_random g3
              in (\<lparr>matrix = [[1]], color = COLORS ! 0, piece_id = idn'\<rparr>, g4)))"

text \<open>
  The \<open>for (i < nPieces)\<close> loop; beside the pieces it returns the attempts each piece took.
\<close>

fun pieces_loop ::
  "nat \<Rightarrow> matrix list \<Rightarrow> nat \<Rightarrow> matrix \<Rightarrow> rng
     \<Rightarrow> (piece_instance list \<times> nat list \<times> matrix \<times> rng) option" where
  "pieces_loop n lib 0 tempBoard g = Some ([], [], tempBoard, g)"
| "pieces_loop n lib (Suc k) tempBoard g =
     do {
       (found, tempBoard', attempts, g1) \<leftarrow> attempts_loop n lib tempBoard 0 g;
       let (foundPiece, g2) = (case found of Some p \<Rightarrow> (p, g1) | None \<Rightarrow> fallback_piece lib g1);
       (result, counts, tempBoard'', g3) \<leftarrow> pieces_loop n lib k tempBoard' g2;
       Some (foundPiece # result, attempts # counts, tempBoard'', g3)
     }"

definition generatePieces ::
  "nat \<Rightarrow> matrix list \<Rightarrow> nat \<Rightarrow> matrix \<Rightarrow> rng \<Rightarrow> (piece_instance list \<times> rng) option" where
  "generatePieces n lib nPieces currentBoardState g =
     do {
       let tempBoard = map (\<lambda>row. row) currentBoardState;
       (result, counts, tempBoard', g') \<leftarrow> pieces_loop n lib nPieces tempBoard g;
       Some (result, g')
     }"


section \<open>The server: sessions and request handlers\<close>

text \<open>\<open>matricesEqual\<close>: equal lengths, then row by row equal lengths and equal cells.\<close>

fun rows_equal_loop :: "nat list \<Rightarrow> nat list \<Rightarrow> nat list \<Rightarrow> bool" where
  "rows_equal_loop ra rb [] = True"
| "rows_equal_loop ra rb (j # js) = (if ra ! j \<noteq> rb ! j then False else rows_equal_loop ra rb js)"

fun matricesEqual_loop :: "matrix \<Rightarrow> matrix \<Rightarrow> nat list \<Rightarrow> bool" where
  "matricesEqual_loop a b [] = True"
| "matricesEqual_loop a b (i # is) =
     (if length (a ! i) \<noteq> length (b ! i) then False
      else if \<not> rows_equal_loop (a ! i) (b ! i) [0..<length (a ! i)] then False
      else matricesEqual_loop a b is)"

definition matricesEqual :: "matrix \<Rightarrow> matrix \<Rightarrow> bool" where
  "matricesEqual a b =
     (if length a \<noteq> length b then False else matricesEqual_loop a b [0..<length a])"

text \<open>
  A session. \<open>board_snapshot\<close> is the field \<open>board\<close> of the session object: the copy of the
  empty grid taken by \<open>init\<close>, which no handler reads or writes again; the grid of the game
  is \<open>boardManager.board\<close>. The piece generator of a session shares its \<open>boardManager\<close> and
  \<open>shapeLibrary\<close>.
\<close>

record game_state =
  board_snapshot :: matrix
  score :: nat
  currentPieces :: "piece_instance option list"
  boardManager :: board_manager
  shapeLibrary :: "matrix list"

type_synonym sessions = "string \<rightharpoonup> game_state"

text \<open>
  The body of a place request. \<open>None\<close> is a field that is missing or fails the handler's
  first test (\<open>!piece\<close>, \<open>typeof x !== 'number'\<close>); \<open>req_piece\<close> is the field
  \<open>piece.matrix\<close>, a matrix of numbers, and the coordinates are integers.
\<close>

record place_request =
  req_sessionId :: "string option"
  req_piece :: "matrix option"
  req_x :: "int option"
  req_y :: "int option"

datatype place_error =
    MissingFields | SessionNotFound | InvalidPiece | InvalidCoordinates | CannotPlace | FailedToPlace

record place_result =
  res_board :: matrix
  res_score :: nat
  res_pieces :: "piece_instance option list"
  lineCleared :: line_data
  lineClearScore :: nat
  isGameOver :: bool

datatype place_response = PlaceError place_error | PlaceSuccess place_result

fun find_piece_loop :: "piece_instance option list \<Rightarrow> matrix \<Rightarrow> nat \<Rightarrow> nat option" where
  "find_piece_loop [] pieceMatrix i = None"
| "find_piece_loop (p # ps) pieceMatrix i =
     (case p of
        Some pc \<Rightarrow>
          if matricesEqual (matrix pc) pieceMatrix then Some i
          else find_piece_loop ps pieceMatrix (Suc i)
      | None \<Rightarrow> find_piece_loop ps pieceMatrix (Suc i))"

text \<open>
  \<open>blockCount\<close> is \<open>pieceMatrix.flat().filter(x => x === 1).length\<close>;
  \<open>line_clear_score\<close> is the expression the handler assigns to \<open>lineClearScore\<close>.
\<close>

definition blockCount :: "matrix \<Rightarrow> nat" where
  "blockCount pieceMatrix = length (filter (\<lambda>x. x = 1) (concat pieceMatrix))"

definition line_clear_score :: "nat \<Rightarrow> nat" where
  "line_clear_score count =
     (count * LINE_CLEAR_BASE_POINTS) + LINE_CLEAR_MULTIPLIER * count * (count - 1)"

fun game_over_loop :: "nat \<Rightarrow> matrix \<Rightarrow> piece_instance list \<Rightarrow> bool option" where
  "game_over_loop n brd [] = Some True"
| "game_over_loop n brd (p # ps) =
     do {
       placement \<leftarrow> findValidPosition n brd (matrix p);
       if placement \<noteq> None then Some False else game_over_loop n brd ps
     }"

definition active_pieces :: "piece_instance option list \<Rightarrow> piece_instance list" where
  "active_pieces ps = map the (filter (\<lambda>p. p \<noteq> None) ps)"

text \<open>
  \<open>POST /api/game/place\<close>. The result is the response and the session store after the
  request. \<open>None\<close> is an exception inside the handler: the \<open>catch\<close> answers with status
  500, and the session may have been written in part.
\<close>

definition place_handler :: "sessions \<Rightarrow> place_request \<Rightarrow> (place_response \<times> sessions) option" where
  "place_handler gameSessions req =
     (case (req_sessionId req, req_piece req, req_x req, req_y req) of
        (Some sessionId, Some pieceMatrix, Some x, Some y) \<Rightarrow>
          if sessionId = [] then Some (PlaceError MissingFields, gameSessions)
          else
            (case gameSessions sessionId of
               None \<Rightarrow> Some (PlaceError SessionNotFound, gameSessions)
             | Some gameState \<Rightarrow>
                 (case find_piece_loop (currentPieces gameState) pieceMatrix 0 of
                    None \<Rightarrow> Some (PlaceError InvalidPiece, gameSessions)
                  | Some pieceIndex \<Rightarrow>
                      do {
                        p0 \<leftarrow> js_index pieceMatrix 0;
                        let pRows = length pieceMatrix;
                        let pCols = length p0;
                        if x < 0 \<or> y < 0 \<or> x + int pRows > int BOARD_SIZE
                             \<or> y + int pCols > int BOARD_SIZE
                        then Some (PlaceError InvalidCoordinates, gameSessions)
                        else
                          do {
                            ok \<leftarrow> canPlace (boardManager gameState) pieceMatrix x y;
                            if \<not> ok then Some (PlaceError CannotPlace, gameSessions)
                            else
                              do {
                                (placed, bm1) \<leftarrow> placePiece (boardManager gameState) pieceMatrix x y;
                                if \<not> placed then Some (PlaceError FailedToPlace, gameSessions)
                                else
                                  do {
                                    let score1 = score gameState + blockCount pieceMatrix * BASE_POINTS_PER_BLOCK;
                                    lineData \<leftarrow> checkLines bm1;
                                    (lcs, score2, bm2) \<leftarrow>
                                      (if length (rows lineData) > 0 \<or> length (cols lineData) > 0 then
                                         do {
                                           let count = length (rows lineData) + length (cols lineData);
                                           let lcs = line_clear_score count;
                                           bm2 \<leftarrow> clearLines bm1 lineData;
                                           Some (lcs, score1 + lcs, bm2)
                                         }
                                       else Some (0, score1, bm1));
                                    let pieces' = (currentPieces gameState)[pieceIndex := None];
                                    let activePieces = active_pieces pieces';
                                    over \<leftarrow>
                                      (if length activePieces > 0
                                       then game_over_loop (boardSize bm2) (board bm2) activePieces
                                       else Some False);
                                    Some (PlaceSuccess
                                            \<lparr>res_board = map (\<lambda>row. row) (board bm2),
                                             res_score = score2,
                                             res_pieces = pieces',
                                             lineCleared = lineData,
                                             lineClearScore = lcs,
                                             isGameOver = over\<rparr>,
                                          gameSessions(sessionId \<mapsto>
                                            gameState\<lparr>score := score2, currentPieces := pieces',
                                                       boardManager := bm2\<rparr>))
                                  }
                              }
                          }
                      }))
      | _ \<Rightarrow> Some (PlaceError MissingFields, gameSessions))"

text \<open>
  \<open>POST /api/game/requestNewPieces\<close>. The response of a success carries the pieces and
  nothing else. \<open>NotAllUsed k\<close> is the rejection with \<open>remainingPieces: k\<close>.
\<close>

datatype new_pieces_error = MissingSessionId | NoSession | NotAllUsed nat | GenerationFailed

datatype new_pieces_response = NewPiecesError new_pieces_error | NewPieces "piece_instance list"

definition requestNewPieces_handler ::
  "sessions \<Rightarrow> string option \<Rightarrow> rng \<Rightarrow> (new_pieces_response \<times> sessions \<times> rng) option" where
  "requestNewPieces_handler gameSessions req_sid g =
     (case req_sid of
        None \<Rightarrow> Some (NewPiecesError MissingSessionId, gameSessions, g)
      | Some sessionId \<Rightarrow>
          if sessionId = [] then Some (NewPiecesError MissingSessionId, gameSessions, g)
          else
            (case gameSessions sessionId of
               None \<Rightarrow> Some (NewPiecesError NoSession, gameSessions, g)
             | Some gameState \<Rightarrow>
                 let allPiecesUsed = list_all (\<lambda>p. p = None) (currentPieces gameState) in
                 if \<not> allPiecesUsed
                 then Some (NewPiecesError
                              (NotAllUsed (length (filter (\<lambda>p. p \<noteq> None) (currentPieces gameState)))),
                            gameSessions, g)
                 else
                   do {
                     (generated, g1) \<leftarrow>
                       generatePieces (boardSize (boardManager gameState)) (shapeLibrary gameState)
                         PIECES_PER_ROUND (board (boardManager gameState)) g;
                     let (newPieces, g2) = shuffle generated g1;
                     if length newPieces \<noteq> PIECES_PER_ROUND
                     then Some (NewPiecesError GenerationFailed, gameSessions, g2)
                     else
                       let validPieces = filter (\<lambda>p. color p \<noteq> []) newPieces in
                       if length validPieces \<noteq> PIECES_PER_ROUND
                       then Some (NewPiecesError GenerationFailed, gameSessions, g2)
                       else Some (NewPieces newPieces,
                                  gameSessions(sessionId \<mapsto>
                                    gameState\<lparr>currentPieces := map Some newPieces\<rparr>),
                                  g2)
                   }))"

section \<open>The browser's game: reward\<close>

text \<open>
  \<open>PuzzleGame.reward\<close> of \<open>game.js\<close>, the game that keeps its state in the browser: the
  points of a line clear are added to the score, and the result says whether any were.
\<close>

definition reward :: "line_data \<Rightarrow> nat \<Rightarrow> bool \<times> nat" where
  "reward lineData sc =
     (let count = length (rows lineData) + length (cols lineData) in
      if count > 0 then
        (let points = (count * LINE_CLEAR_BASE_POINTS) + LINE_CLEAR_MULTIPLIER * count * (count - 1)
         in (True, sc + points))
      else (False, sc))"

section \<open>Numbers of a JSON text\<close>














section \<open>The top rank\<close>










section \<open>The generator on a store of row arrays\<close>

text \<open>
  Whether \<open>generatePieces\<close> changes the grid it is given depends on which arrays it writes,
  and lists have no identity. This section models the generator once more with the row
  arrays in a store: a grid is the list of the addresses of its rows, \<open>rows_at\<close> gives the
  content of a row array, and \<open>next_addr\<close> is the first address that no array has yet.
  The outer array of a grid is never written after it is built, so it stays a value. Piece
  matrices are never written either. Functions that only read (\<open>findValidPosition\<close>, the
  line detection) are applied to the grid that the addresses hold, \<open>grid_of\<close>.
\<close>

type_synonym addr = nat

record store =
  rows_at :: "addr \<Rightarrow> nat list"
  next_addr :: addr

definition grid_of :: "store \<Rightarrow> addr list \<Rightarrow> matrix" where
  "grid_of st refs = map (rows_at st) refs"

text \<open>\<open>board[i][j] = v\<close>: the row array at \<open>board[i]\<close> is updated in place.\<close>

definition wr_st :: "store \<Rightarrow> addr list \<Rightarrow> nat \<Rightarrow> nat \<Rightarrow> nat \<Rightarrow> store option" where
  "wr_st st refs i j v =
     (case js_index refs i of
        None \<Rightarrow> None
      | Some a \<Rightarrow>
          if j < length (rows_at st a)
          then Some (st\<lparr>rows_at := (rows_at st)(a := (rows_at st a)[j := v])\<rparr>)
          else None)"

fun place_loop_st ::
  "store \<Rightarrow> addr list \<Rightarrow> matrix \<Rightarrow> nat \<Rightarrow> nat \<Rightarrow> (nat \<times> nat) list \<Rightarrow> store option" where
  "place_loop_st st refs piece row col [] = Some st"
| "place_loop_st st refs piece row col ((r, c) # rcs) =
     do {
       p \<leftarrow> rd piece r c;
       if p = Num 1 then
         do {
           st' \<leftarrow> wr_st st refs (row + r) (col + c) 1;
           place_loop_st st' refs piece row col rcs
         }
       else place_loop_st st refs piece row col rcs
     }"

fun clear_cells_st :: "store \<Rightarrow> addr list \<Rightarrow> (nat \<times> nat) list \<Rightarrow> store option" where
  "clear_cells_st st refs [] = Some st"
| "clear_cells_st st refs ((r, c) # rcs) =
     do {
       st' \<leftarrow> wr_st st refs r c 0;
       clear_cells_st st' refs rcs
     }"

text \<open>\<open>simulatePlaceAndClear\<close> writes through the grid it was given.\<close>

definition simulatePlaceAndClear_st ::
  "nat \<Rightarrow> addr list \<Rightarrow> matrix \<Rightarrow> nat \<Rightarrow> nat \<Rightarrow> store \<Rightarrow> store option" where
  "simulatePlaceAndClear_st n refs piece r c st =
     do {
       st1 \<leftarrow> (case piece of
                [] \<Rightarrow> Some st
              | p0 # _ \<Rightarrow>
                  place_loop_st st refs piece r c (List.product [0..<length piece] [0..<length p0]));
       rowsToRemove \<leftarrow> full_rows_loop (grid_of st1 refs) [0..<n];
       colsToRemove \<leftarrow> full_cols_loop n (grid_of st1 refs) [0..<n];
       st2 \<leftarrow> clear_cells_st st1 refs (row_cells n rowsToRemove);
       clear_cells_st st2 refs (col_cells n colsToRemove)
     }"

fun variants_loop_st ::
  "nat \<Rightarrow> addr list \<Rightarrow> matrix list \<Rightarrow> rng \<Rightarrow> store
     \<Rightarrow> (piece_instance option \<times> rng \<times> store) option" where
  "variants_loop_st n tempBoard [] g st = Some (None, g, st)"
| "variants_loop_st n tempBoard (shapeVariant # vs) g st =
     do {
       placement \<leftarrow> findValidPosition n (grid_of st tempBoard) shapeVariant;
       case placement of
         None \<Rightarrow> variants_loop_st n tempBoard vs g st
       | Some (r, c) \<Rightarrow>
           do {
             let (ci, g1) = random_index (length COLORS) g;
             let (idn, g2) = next_random g1;
             let foundPiece = \<lparr>matrix = shapeVariant, color = COLORS ! ci, piece_id = idn\<rparr>;
             st' \<leftarrow> simulatePlaceAndClear_st n tempBoard (matrix foundPiece) r c st;
             Some (Some foundPiece, g2, st')
           }
     }"

function attempts_loop_st ::
  "nat \<Rightarrow> matrix list \<Rightarrow> addr list \<Rightarrow> nat \<Rightarrow> rng \<Rightarrow> store
     \<Rightarrow> (piece_instance option \<times> nat \<times> rng \<times> store) option" where
  "attempts_loop_st n lib tempBoard attempts g st =
     (if attempts < MAX_GENERATION_ATTEMPTS then
        do {
          let (si, g1) = random_index (length lib) g;
          randomShape \<leftarrow> js_index lib si;
          rotations \<leftarrow> getAllRotations randomShape;
          let (rotations', g2) = shuffle rotations g1;
          (foundPiece, g3, st') \<leftarrow> variants_loop_st n tempBoard rotations' g2 st;
          case foundPiece of
            Some p \<Rightarrow> Some (Some p, attempts + 1, g3, st')
          | None \<Rightarrow> attempts_loop_st n lib tempBoard (attempts + 1) g3 st'
        }
      else Some (None, attempts, g, st))"
  by pat_completeness auto
termination
  by (relation "measure (\<lambda>(n, lib, tempBoard, attempts, g, st). MAX_GENERATION_ATTEMPTS - attempts)")
     auto

declare attempts_loop_st.simps [simp del]

fun pieces_loop_st ::
  "nat \<Rightarrow> matrix list \<Rightarrow> nat \<Rightarrow> addr list \<Rightarrow> rng \<Rightarrow> store
     \<Rightarrow> (piece_instance list \<times> rng \<times> store) option" where
  "pieces_loop_st n lib 0 tempBoard g st = Some ([], g, st)"
| "pieces_loop_st n lib (Suc k) tempBoard g st =
     do {
       (found, attempts, g1, st1) \<leftarrow> attempts_loop_st n lib tempBoard 0 g st;
       let (foundPiece, g2) = (case found of Some p \<Rightarrow> (p, g1) | None \<Rightarrow> fallback_piece lib g1);
       (result, g3, st2) \<leftarrow> pieces_loop_st n lib k tempBoard g2 st1;
       Some (foundPiece # result, g3, st2)
     }"

text \<open>
  \<open>currentBoardState.map(row => [...row])\<close>: every row is copied into a new array at the
  next free address.
\<close>

fun clone_rows :: "store \<Rightarrow> addr list \<Rightarrow> addr list \<times> store" where
  "clone_rows st [] = ([], st)"
| "clone_rows st (row # rest) =
     (let a = next_addr st;
          st1 = st\<lparr>rows_at := (rows_at st)(a := rows_at st row), next_addr := Suc a\<rparr>;
          (copies, st2) = clone_rows st1 rest
      in (a # copies, st2))"

definition generatePieces_st ::
  "nat \<Rightarrow> matrix list \<Rightarrow> nat \<Rightarrow> addr list \<Rightarrow> rng \<Rightarrow> store
     \<Rightarrow> (piece_instance list \<times> rng \<times> store) option" where
  "generatePieces_st n lib nPieces currentBoardState g st =
     (let (tempBoard, st1) = clone_rows st currentBoardState
      in pieces_loop_st n lib nPieces tempBoard g st1)"

section \<open>Well-formed grids and pieces\<close>

text \<open>
  A grid of size N has N rows of N cells (\<open>createEmptyBoard\<close> builds one, and the writes
  of the program keep the shape). A piece matrix is rectangular with at least one row and one column.
\<close>

definition valid_board :: "nat \<Rightarrow> matrix \<Rightarrow> bool" where
  "valid_board n b = (length b = n \<and> list_all (\<lambda>row. length row = n) b)"

definition valid_piece :: "matrix \<Rightarrow> bool" where
  "valid_piece p = (p \<noteq> [] \<and> hd p \<noteq> [] \<and> list_all (\<lambda>row. length row = length (hd p)) p)"

text \<open>The cell of the piece, placed at \<open>(row, col)\<close>, that covers grid cell \<open>(i, j)\<close> is filled.\<close>

definition covers :: "matrix \<Rightarrow> nat \<Rightarrow> nat \<Rightarrow> nat \<Rightarrow> nat \<Rightarrow> bool" where
  "covers piece row col i j =
     (row \<le> i \<and> col \<le> j \<and> i - row < length piece \<and> j - col < length (hd piece)
      \<and> piece ! (i - row) ! (j - col) = 1)"

text \<open>
  Auxiliary notions for the proofs: two grids of the same shape; the index pairs of a loop
  all lie inside the piece and, shifted, inside the grid; the bounds test of \<open>canPlace\<close>;
  and a filled piece cell meeting a filled grid cell.
\<close>

definition same_shape :: "matrix \<Rightarrow> matrix \<Rightarrow> bool" where
  "same_shape a b = (length a = length b \<and> (\<forall>i < length b. length (a ! i) = length (b ! i)))"

definition in_range :: "matrix \<Rightarrow> matrix \<Rightarrow> nat \<Rightarrow> nat \<Rightarrow> (nat \<times> nat) list \<Rightarrow> bool" where
  "in_range brd piece row col ijs =
     (\<forall>(i, j) \<in> set ijs. i < length piece \<and> j < length (piece ! i)
         \<and> row + i < length brd \<and> col + j < length (brd ! (row + i)))"

definition fits :: "nat \<Rightarrow> matrix \<Rightarrow> int \<Rightarrow> int \<Rightarrow> bool" where
  "fits n piece row col =
     (0 \<le> row \<and> 0 \<le> col \<and> row + int (length piece) \<le> int n
      \<and> col + int (length (hd piece)) \<le> int n)"

definition overlap :: "matrix \<Rightarrow> matrix \<Rightarrow> nat \<Rightarrow> nat \<Rightarrow> bool" where
  "overlap brd piece row col =
     (\<exists>i < length piece. \<exists>j < length (hd piece).
        piece ! i ! j = 1 \<and> brd ! (row + i) ! (col + j) = 1)"

text \<open>The empty grid of a new game.\<close>

definition empty8 :: board_manager where
  "empty8 = createEmptyBoard \<lparr>boardSize = BOARD_SIZE, board = []\<rparr>"

text \<open>
  The full rows and the full columns of a grid, as \<open>checkLines\<close> finds them on a grid of
  size \<open>n\<close>; and the sequence place, detect, clear on the board manager's own grid.
\<close>

definition full_rows :: "nat \<Rightarrow> matrix \<Rightarrow> nat list" where
  "full_rows n brd = filter (\<lambda>r. \<forall>c < n. brd ! r ! c = 1) [0..<n]"

definition full_cols :: "nat \<Rightarrow> matrix \<Rightarrow> nat list" where
  "full_cols n brd = filter (\<lambda>c. \<forall>r < n. brd ! r ! c \<noteq> 0) [0..<n]"

definition place_detect_clear :: "board_manager \<Rightarrow> matrix \<Rightarrow> int \<Rightarrow> int \<Rightarrow> matrix option" where
  "place_detect_clear bm piece row col =
     do {
       (placed, bm1) \<leftarrow> placePiece bm piece row col;
       lineData \<leftarrow> checkLines bm1;
       bm2 \<leftarrow> clearLines bm1 lineData;
       Some (board bm2)
     }"

text \<open>Detecting and clearing, as both \<open>simulatePlaceAndClear\<close> and the handler do it.\<close>

definition cleared :: "nat \<Rightarrow> matrix \<Rightarrow> matrix \<Rightarrow> bool" where
  "cleared n brd b2 =
     (valid_board n b2 \<and>
      (\<forall>a < n. \<forall>b < n. b2 ! a ! b =
         (if a \<in> set (full_rows n brd) \<or> b \<in> set (full_cols n brd) then 0 else brd ! a ! b)))"

text \<open>
  A grid one cell short of a full row and a full column: row 5 is filled but for its last
  cell, and column 7 is filled but for its cell in row 5.
\<close>

definition cross_board :: board_manager where
  "cross_board =
     \<lparr>boardSize = BOARD_SIZE,
      board = map (\<lambda>r. if r = 5 then replicate 7 1 @ [0] else replicate 7 0 @ [1]) [0..<8]\<rparr>"







text \<open>The number of lines of a detection: its rows plus its columns.\<close>

definition line_count :: "line_data \<Rightarrow> nat" where
  "line_count ld = length (rows ld) + length (cols ld)"

text \<open>Pieces, grids and sessions for the examples.\<close>

definition piece_I1 :: piece_instance where
  "piece_I1 = \<lparr>matrix = P4, color = COLORS ! 0, piece_id = 1\<rparr>"

definition piece_I4 :: piece_instance where
  "piece_I4 = \<lparr>matrix = P1, color = COLORS ! 1, piece_id = 2\<rparr>"

definition four_lines_board :: board_manager where
  "four_lines_board =
     \<lparr>boardSize = BOARD_SIZE,
      board = map (\<lambda>r. map (\<lambda>c. if (r = 3 \<or> r = 4) \<noteq> (c = 3 \<or> c = 4) then 1 else 0) [0..<8]) [0..<8]\<rparr>"

definition x_board :: board_manager where
  "x_board =
     \<lparr>boardSize = BOARD_SIZE,
      board = map (\<lambda>r. map (\<lambda>c. if c = r \<or> c = 7 - r then 0 else 1) [0..<8]) [0..<8]\<rparr>"

definition piece_square2 :: piece_instance where
  "piece_square2 = \<lparr>matrix = P11, color = COLORS ! 2, piece_id = 3\<rparr>"

definition four_lines_session :: game_state where
  "four_lines_session =
     \<lparr>board_snapshot = board empty8, score = 0,
      currentPieces = [Some piece_square2, Some piece_I4, None],
      boardManager = four_lines_board, shapeLibrary = RAW_SHAPES\<rparr>"

definition last_slot_session :: game_state where
  "last_slot_session =
     \<lparr>board_snapshot = board empty8, score = 7,
      currentPieces = [None, Some piece_I1, None],
      boardManager = x_board, shapeLibrary = RAW_SHAPES\<rparr>"

text \<open>A position that \<open>canPlaceOnBoard\<close> accepts on a well-formed grid.\<close>

definition placeable :: "nat \<Rightarrow> matrix \<Rightarrow> matrix \<Rightarrow> nat \<times> nat \<Rightarrow> bool" where
  "placeable n brd piece = (\<lambda>(r, c). fits n piece (int r) (int c) \<and> \<not> overlap brd piece r c)"

text \<open>
  A session whose grid has the size of its board manager and whose pieces are rectangular.
\<close>

definition valid_session :: "game_state \<Rightarrow> bool" where
  "valid_session gs =
     (valid_board (boardSize (boardManager gs)) (board (boardManager gs))
      \<and> list_all (\<lambda>p. valid_piece (matrix p)) (active_pieces (currentPieces gs)))"

text \<open>A session with no piece left on \<open>x_board\<close>, and the bar of four in its two rotations.\<close>

definition stuck_session :: game_state where
  "stuck_session =
     \<lparr>board_snapshot = board empty8, score = 12,
      currentPieces = [None, None, None],
      boardManager = x_board, shapeLibrary = RAW_SHAPES\<rparr>"

definition bar_rotations :: "matrix list" where
  "bar_rotations = [P1, [[1], [1], [1], [1]]]"

definition stuck_piece :: piece_instance where
  "stuck_piece = \<lparr>matrix = P1, color = COLORS ! 0, piece_id = 0\<rparr>"

text \<open>
  A step of the store that writes only row arrays at the addresses in \<open>A\<close> and allocates
  nothing; and the store that holds the eight rows of a grid at the addresses 0 to 7.
\<close>

definition writes_only :: "addr set \<Rightarrow> store \<Rightarrow> store \<Rightarrow> bool" where
  "writes_only A st st' =
     ((\<forall>a. a \<notin> A \<longrightarrow> rows_at st' a = rows_at st a) \<and> next_addr st' = next_addr st)"

definition store8 :: "matrix \<Rightarrow> store" where
  "store8 b = \<lparr>rows_at = (\<lambda>a. if a < 8 then b ! a else []), next_addr = 8\<rparr>"

section \<open>Reads and writes in range\<close>

lemma createEmptyBoard_valid: "valid_board (boardSize bm) (board (createEmptyBoard bm))"
  by (simp add: createEmptyBoard_def valid_board_def list_all_iff)

lemma js_index_Some: "i < length xs \<Longrightarrow> js_index xs i = Some (xs ! i)"
  by (simp add: js_index_def)

lemma rd_in_range: "i < length m \<Longrightarrow> j < length (m ! i) \<Longrightarrow> rd m i j = Some (Num (m ! i ! j))"
  by (simp add: rd_def js_index_def)

lemma wr_in_range: "i < length m \<Longrightarrow> j < length (m ! i) \<Longrightarrow> wr m i j v = Some (m[i := (m ! i)[j := v]])"
  by (simp add: wr_def js_index_def)

lemma overlap_loop_in_range:
  "in_range brd piece row col ijs \<Longrightarrow>
   overlap_loop brd piece row col ijs =
     Some (\<not> (\<exists>(i, j) \<in> set ijs. piece ! i ! j = 1 \<and> brd ! (row + i) ! (col + j) = 1))"
proof (induction ijs)
  case Nil
  then show ?case by simp
next
  case (Cons ij ijs)
  obtain i j where ij: "ij = (i, j)" by (cases ij)
  from Cons.prems have r: "i < length piece" "j < length (piece ! i)"
     "row + i < length brd" "col + j < length (brd ! (row + i))"
    and rest: "in_range brd piece row col ijs"
    by (auto simp: in_range_def ij)
  show ?case
    using Cons.IH[OF rest] r by (auto simp: ij rd_in_range)
qed

lemma place_loop_in_range:
  "in_range brd piece row col ijs \<Longrightarrow>
   \<exists>brd'. place_loop brd piece row col ijs = Some brd' \<and> same_shape brd' brd \<and>
     (\<forall>a < length brd. \<forall>b < length (brd ! a). brd' ! a ! b =
        (if \<exists>(i, j) \<in> set ijs. piece ! i ! j = 1 \<and> a = row + i \<and> b = col + j then 1
         else brd ! a ! b))"
proof (induction ijs arbitrary: brd)
  case Nil
  then show ?case by (simp add: same_shape_def)
next
  case (Cons ij ijs)
  obtain i j where ij: "ij = (i, j)" by (cases ij)
  from Cons.prems have r: "i < length piece" "j < length (piece ! i)"
     "row + i < length brd" "col + j < length (brd ! (row + i))"
    and rest: "in_range brd piece row col ijs"
    by (auto simp: in_range_def ij)
  show ?case
  proof (cases "piece ! i ! j = 1")
    case False
    then have step: "place_loop brd piece row col (ij # ijs) = place_loop brd piece row col ijs"
      using r by (simp add: ij rd_in_range)
    from Cons.IH[OF rest] obtain brd' where
      b': "place_loop brd piece row col ijs = Some brd'" "same_shape brd' brd"
      "\<forall>a < length brd. \<forall>b < length (brd ! a). brd' ! a ! b =
        (if \<exists>(i, j) \<in> set ijs. piece ! i ! j = 1 \<and> a = row + i \<and> b = col + j then 1
         else brd ! a ! b)" by blast
    show ?thesis
      unfolding step using b' False by (auto simp: ij)
  next
    case True
    define b1 where "b1 = brd[row + i := (brd ! (row + i))[col + j := 1]]"
    have step: "place_loop brd piece row col (ij # ijs) = place_loop b1 piece row col ijs"
      using r True by (simp add: ij rd_in_range wr_in_range b1_def)
    have sh: "same_shape b1 brd"
      using r by (auto simp: same_shape_def b1_def nth_list_update)
    have rest1: "in_range b1 piece row col ijs"
      using rest sh by (auto simp: in_range_def same_shape_def)
    from Cons.IH[OF rest1] obtain brd' where
      b': "place_loop b1 piece row col ijs = Some brd'" "same_shape brd' b1"
      "\<forall>a < length b1. \<forall>b < length (b1 ! a). brd' ! a ! b =
        (if \<exists>(i, j) \<in> set ijs. piece ! i ! j = 1 \<and> a = row + i \<and> b = col + j then 1
         else b1 ! a ! b)" by blast
    have sh': "same_shape brd' brd"
      using b'(2) sh by (auto simp: same_shape_def)
    have cells: "brd' ! a ! b =
        (if \<exists>(i, j) \<in> set (ij # ijs). piece ! i ! j = 1 \<and> a = row + i \<and> b = col + j then 1
         else brd ! a ! b)" if "a < length brd" "b < length (brd ! a)" for a b
    proof -
      have a1: "a < length b1" "b < length (b1 ! a)"
        using that sh by (auto simp: same_shape_def)
      have "b1 ! a ! b = (if a = row + i \<and> b = col + j then 1 else brd ! a ! b)"
        using that r by (auto simp: b1_def nth_list_update)
      then show ?thesis
        using b'(3) a1 True by (auto simp: ij)
    qed
    show ?thesis
      unfolding step using b'(1) sh' cells by blast
  qed
qed


lemma valid_pieceD:
  "valid_piece p \<Longrightarrow> p \<noteq> [] \<and> hd p \<noteq> [] \<and> js_index p 0 = Some (hd p)
     \<and> (\<forall>i < length p. length (p ! i) = length (hd p))"
  by (cases p) (auto simp: valid_piece_def js_index_def list_all_length)

lemma valid_boardD:
  "valid_board n b \<Longrightarrow> length b = n \<and> (\<forall>i < n. length (b ! i) = n)"
  by (auto simp: valid_board_def list_all_length)

lemma valid_boardI:
  "length b = n \<Longrightarrow> (\<forall>i < n. length (b ! i) = n) \<Longrightarrow> valid_board n b"
  by (auto simp: valid_board_def list_all_length)

lemma same_shape_valid: "same_shape b' b \<Longrightarrow> valid_board n b \<Longrightarrow> valid_board n b'"
  by (auto simp: same_shape_def valid_board_def list_all_length)

lemma in_range_fits:
  assumes "valid_board n brd" "valid_piece piece" "fits n piece row col"
  shows "in_range brd piece (nat row) (nat col)
           (List.product [0..<length piece] [0..<length (hd piece)])"
  using valid_boardD[OF assms(1)] valid_pieceD[OF assms(2)] assms(3)
  by (auto simp: in_range_def fits_def)

lemma canPlace_valid:
  assumes "valid_board (boardSize bm) (board bm)" "valid_piece piece"
  shows "canPlace bm piece row col =
           Some (fits (boardSize bm) piece row col \<and> \<not> overlap (board bm) piece (nat row) (nat col))"
proof (cases "fits (boardSize bm) piece row col")
  case False
  then show ?thesis
    using valid_pieceD[OF assms(2)] by (auto simp: canPlace_def fits_def Let_def)
next
  case True
  have "canPlace bm piece row col = overlap_loop (board bm) piece (nat row) (nat col)
          (List.product [0..<length piece] [0..<length (hd piece)])"
    using valid_pieceD[OF assms(2)] True by (auto simp: canPlace_def fits_def Let_def)
  also have "\<dots> = Some (\<not> overlap (board bm) piece (nat row) (nat col))"
    by (subst overlap_loop_in_range[OF in_range_fits[OF assms True]])
       (auto simp: overlap_def)
  finally show ?thesis using True by simp
qed

lemma covers_iff:
  "covers piece row col a b \<longleftrightarrow>
     (\<exists>(i, j) \<in> set (List.product [0..<length piece] [0..<length (hd piece)]).
         piece ! i ! j = 1 \<and> a = row + i \<and> b = col + j)"
proof
  assume c: "covers piece row col a b"
  then have "(a - row, b - col) \<in> set (List.product [0..<length piece] [0..<length (hd piece)])"
    "piece ! (a - row) ! (b - col) = 1" "a = row + (a - row)" "b = col + (b - col)"
    by (auto simp: covers_def)
  then show "\<exists>(i, j) \<in> set (List.product [0..<length piece] [0..<length (hd piece)]).
         piece ! i ! j = 1 \<and> a = row + i \<and> b = col + j"
    by blast
next
  assume "\<exists>(i, j) \<in> set (List.product [0..<length piece] [0..<length (hd piece)]).
         piece ! i ! j = 1 \<and> a = row + i \<and> b = col + j"
  then show "covers piece row col a b"
    by (auto simp: covers_def)
qed

lemma placePiece_ok:
  assumes "valid_board (boardSize bm) (board bm)" and "valid_piece piece"
    and ok: "canPlace bm piece row col = Some True"
  shows "\<exists>brd'. placePiece bm piece row col = Some (True, bm\<lparr>board := brd'\<rparr>)
          \<and> valid_board (boardSize bm) brd'
          \<and> (\<forall>i < boardSize bm. \<forall>j < boardSize bm.
                brd' ! i ! j = (if covers piece (nat row) (nat col) i j then 1 else board bm ! i ! j))"
proof -
  have f: "fits (boardSize bm) piece row col"
    using ok by (simp add: canPlace_valid[OF assms(1,2)])
  let ?ijs = "List.product [0..<length piece] [0..<length (hd piece)]"
  from place_loop_in_range[OF in_range_fits[OF assms(1,2) f]] obtain brd' where
    b': "place_loop (board bm) piece (nat row) (nat col) ?ijs = Some brd'"
      "same_shape brd' (board bm)"
      "\<forall>a < length (board bm). \<forall>b < length (board bm ! a). brd' ! a ! b =
        (if \<exists>(i, j) \<in> set ?ijs. piece ! i ! j = 1 \<and> a = nat row + i \<and> b = nat col + j then 1
         else board bm ! a ! b)" by blast
  have "placePiece bm piece row col = Some (True, bm\<lparr>board := brd'\<rparr>)"
    using ok b'(1) valid_pieceD[OF assms(2)] by (simp add: placePiece_def)
  moreover have "valid_board (boardSize bm) brd'"
    using same_shape_valid[OF b'(2) assms(1)] .
  moreover have "\<forall>i < boardSize bm. \<forall>j < boardSize bm.
      brd' ! i ! j = (if covers piece (nat row) (nat col) i j then 1 else board bm ! i ! j)"
    using b'(3) valid_boardD[OF assms(1)] by (simp add: covers_iff)
  ultimately show ?thesis by blast
qed

lemma full_rows_loop_in_range:
  "\<forall>r \<in> set rs. r < length brd \<Longrightarrow>
   full_rows_loop brd rs = Some (filter (\<lambda>r. list_all (\<lambda>v. v = 1) (brd ! r)) rs)"
  by (induction rs) (auto simp: js_index_def)

lemma col_is_full_in_range:
  "\<forall>r \<in> set rs. r < length brd \<and> c < length (brd ! r) \<Longrightarrow>
   col_is_full brd c rs = Some (\<forall>r \<in> set rs. brd ! r ! c \<noteq> 0)"
  by (induction rs) (auto simp: rd_in_range)

lemma full_cols_loop_in_range:
  "valid_board n brd \<Longrightarrow> \<forall>c \<in> set cs. c < n \<Longrightarrow>
   full_cols_loop n brd cs = Some (filter (\<lambda>c. \<forall>r < n. brd ! r ! c \<noteq> 0) cs)"
proof (induction cs)
  case Nil
  then show ?case by simp
next
  case (Cons c cs)
  have "col_is_full brd c [0..<n] = Some (\<forall>r \<in> set [0..<n]. brd ! r ! c \<noteq> 0)"
    using valid_boardD[OF Cons.prems(1)] Cons.prems(2)
    by (intro col_is_full_in_range) auto
  then show ?case using Cons by auto
qed

lemma checkLines_valid:
  assumes "valid_board (boardSize bm) (board bm)"
  shows "checkLines bm = Some \<lparr>rows = full_rows (boardSize bm) (board bm),
                               cols = full_cols (boardSize bm) (board bm)\<rparr>"
proof -
  let ?n = "boardSize bm" and ?b = "board bm"
  have "full_rows_loop ?b [0..<?n] = Some (filter (\<lambda>r. list_all (\<lambda>v. v = 1) (?b ! r)) [0..<?n])"
    using valid_boardD[OF assms] by (intro full_rows_loop_in_range) auto
  moreover have "filter (\<lambda>r. list_all (\<lambda>v. v = 1) (?b ! r)) [0..<?n] = full_rows ?n ?b"
    unfolding full_rows_def using valid_boardD[OF assms]
    by (intro filter_cong) (auto simp: list_all_length)
  moreover have "full_cols_loop ?n ?b [0..<?n] = Some (full_cols ?n ?b)"
    unfolding full_cols_def using assms by (intro full_cols_loop_in_range) auto
  ultimately show ?thesis by (simp add: checkLines_def)
qed

lemma clear_cells_in_range:
  "\<forall>(r, c) \<in> set rcs. r < length brd \<and> c < length (brd ! r) \<Longrightarrow>
   \<exists>brd'. clear_cells brd rcs = Some brd' \<and> same_shape brd' brd \<and>
     (\<forall>a < length brd. \<forall>b < length (brd ! a).
        brd' ! a ! b = (if (a, b) \<in> set rcs then 0 else brd ! a ! b))"
proof (induction rcs arbitrary: brd)
  case Nil
  then show ?case by (simp add: same_shape_def)
next
  case (Cons rc rcs)
  obtain r c where rc: "rc = (r, c)" by (cases rc)
  from Cons.prems have rng: "r < length brd" "c < length (brd ! r)"
    and rest: "\<forall>(r, c) \<in> set rcs. r < length brd \<and> c < length (brd ! r)"
    by (auto simp: rc)
  define b1 where "b1 = brd[r := (brd ! r)[c := 0]]"
  have step: "clear_cells brd (rc # rcs) = clear_cells b1 rcs"
    using rng by (simp add: rc wr_in_range b1_def)
  have sh: "same_shape b1 brd"
    using rng by (auto simp: same_shape_def b1_def nth_list_update)
  have rest1: "\<forall>(r, c) \<in> set rcs. r < length b1 \<and> c < length (b1 ! r)"
    using rest sh by (auto simp: same_shape_def)
  from Cons.IH[OF rest1] obtain brd' where
    b': "clear_cells b1 rcs = Some brd'" "same_shape brd' b1"
    "\<forall>a < length b1. \<forall>b < length (b1 ! a).
        brd' ! a ! b = (if (a, b) \<in> set rcs then 0 else b1 ! a ! b)" by blast
  have sh': "same_shape brd' brd"
    using b'(2) sh by (auto simp: same_shape_def)
  have cells: "brd' ! a ! b = (if (a, b) \<in> set (rc # rcs) then 0 else brd ! a ! b)"
    if "a < length brd" "b < length (brd ! a)" for a b
  proof -
    have a1: "a < length b1" "b < length (b1 ! a)"
      using that sh by (auto simp: same_shape_def)
    have "b1 ! a ! b = (if a = r \<and> b = c then 0 else brd ! a ! b)"
      using that rng by (auto simp: b1_def nth_list_update)
    then show ?thesis
      using b'(3) a1 by (auto simp: rc)
  qed
  show ?case
    unfolding step using b'(1) sh' cells by blast
qed

lemma same_shape_trans: "same_shape a b \<Longrightarrow> same_shape b c \<Longrightarrow> same_shape a c"
  by (auto simp: same_shape_def)

lemma same_shape_refl: "same_shape a a"
  by (auto simp: same_shape_def)

text \<open>Clearing the listed rows and columns of a valid grid.\<close>

lemma clear_lines_valid:
  assumes v: "valid_board n brd" and rs: "\<forall>r \<in> set rs. r < n" and cs: "\<forall>c \<in> set cs. c < n"
  shows "\<exists>b1 b2. clear_cells brd (row_cells n rs) = Some b1
           \<and> clear_cells b1 (col_cells n cs) = Some b2 \<and> valid_board n b2
           \<and> (\<forall>a < n. \<forall>b < n. b2 ! a ! b = (if a \<in> set rs \<or> b \<in> set cs then 0 else brd ! a ! b))"
proof -
  note vd = valid_boardD[OF v]
  have r1: "\<forall>(r, c) \<in> set (row_cells n rs). r < length brd \<and> c < length (brd ! r)"
    using vd rs by (auto simp: row_cells_def)
  from clear_cells_in_range[OF r1] obtain b1 where
    b1: "clear_cells brd (row_cells n rs) = Some b1" "same_shape b1 brd"
    "\<forall>a < length brd. \<forall>b < length (brd ! a).
        b1 ! a ! b = (if (a, b) \<in> set (row_cells n rs) then 0 else brd ! a ! b)" by blast
  have v1: "valid_board n b1" using same_shape_valid[OF b1(2) v] .
  note vd1 = valid_boardD[OF v1]
  have r2: "\<forall>(r, c) \<in> set (col_cells n cs). r < length b1 \<and> c < length (b1 ! r)"
    using vd1 cs by (auto simp: col_cells_def)
  from clear_cells_in_range[OF r2] obtain b2 where
    b2: "clear_cells b1 (col_cells n cs) = Some b2" "same_shape b2 b1"
    "\<forall>a < length b1. \<forall>b < length (b1 ! a).
        b2 ! a ! b = (if (a, b) \<in> set (col_cells n cs) then 0 else b1 ! a ! b)" by blast
  have v2: "valid_board n b2" using same_shape_valid[OF b2(2) v1] .
  have "b2 ! a ! b = (if a \<in> set rs \<or> b \<in> set cs then 0 else brd ! a ! b)"
    if "a < n" "b < n" for a b
  proof -
    have m1: "(a, b) \<in> set (row_cells n rs) \<longleftrightarrow> a \<in> set rs"
      using that by (auto simp: row_cells_def)
    have m2: "(a, b) \<in> set (col_cells n cs) \<longleftrightarrow> b \<in> set cs"
      using that by (force simp: col_cells_def)
    show ?thesis
      using b1(3) b2(3) that vd vd1 by (simp add: m1 m2)
  qed
  then show ?thesis using b1(1) b2(1) v2 by blast
qed

lemma full_rows_bound: "\<forall>r \<in> set (full_rows n brd). r < n"
  by (auto simp: full_rows_def)

lemma full_cols_bound: "\<forall>c \<in> set (full_cols n brd). c < n"
  by (auto simp: full_cols_def)

lemma clearLines_valid:
  assumes "valid_board (boardSize bm) (board bm)"
  shows "\<exists>b2. clearLines bm \<lparr>rows = full_rows (boardSize bm) (board bm),
                               cols = full_cols (boardSize bm) (board bm)\<rparr>
               = Some (bm\<lparr>board := b2\<rparr>) \<and> cleared (boardSize bm) (board bm) b2"
proof -
  from clear_lines_valid[OF assms full_rows_bound full_cols_bound]
  obtain b1 b2 where
    "clear_cells (board bm) (row_cells (boardSize bm) (full_rows (boardSize bm) (board bm))) = Some b1"
    "clear_cells b1 (col_cells (boardSize bm) (full_cols (boardSize bm) (board bm))) = Some b2"
    "cleared (boardSize bm) (board bm) b2"
    unfolding cleared_def by blast
  then show ?thesis by (auto simp: clearLines_def)
qed

lemma simulate_as_loops:
  assumes "piece \<noteq> []"
  shows "simulatePlaceAndClear n brd piece r c =
     do {
       b1 \<leftarrow> place_loop brd piece r c (List.product [0..<length piece] [0..<length (hd piece)]);
       rowsToRemove \<leftarrow> full_rows_loop b1 [0..<n];
       colsToRemove \<leftarrow> full_cols_loop n b1 [0..<n];
       b2 \<leftarrow> clear_cells b1 (row_cells n rowsToRemove);
       clear_cells b2 (col_cells n colsToRemove)
     }"
  using assms by (cases piece) (auto simp: simulatePlaceAndClear_def)

lemma simulate_valid:
  assumes v: "valid_board n brd" and p: "valid_piece piece" and f: "fits n piece (int r) (int c)"
  shows "\<exists>b1 b2. place_loop brd piece r c (List.product [0..<length piece] [0..<length (hd piece)]) = Some b1
           \<and> valid_board n b1
           \<and> simulatePlaceAndClear n brd piece r c = Some b2 \<and> cleared n b1 b2"
proof -
  from place_loop_in_range[OF in_range_fits[OF v p f]] obtain b1 where
    b1: "place_loop brd piece r c (List.product [0..<length piece] [0..<length (hd piece)]) = Some b1"
    "same_shape b1 brd" by auto
  have v1: "valid_board n b1" using same_shape_valid[OF b1(2) v] .
  have rows1: "full_rows_loop b1 [0..<n] = Some (full_rows n b1)"
    and cols1: "full_cols_loop n b1 [0..<n] = Some (full_cols n b1)"
    using checkLines_valid[of "\<lparr>boardSize = n, board = b1\<rparr>"] v1
    by (auto simp: checkLines_def split: bind_splits)
  from clear_lines_valid[OF v1 full_rows_bound full_cols_bound] obtain c1 c2 where
    c: "clear_cells b1 (row_cells n (full_rows n b1)) = Some c1"
    "clear_cells c1 (col_cells n (full_cols n b1)) = Some c2"
    "cleared n b1 c2"
    unfolding cleared_def by blast
  have "simulatePlaceAndClear n brd piece r c = Some c2"
    using valid_pieceD[OF p] b1(1) rows1 cols1 c(1,2)
    by (simp add: simulate_as_loops)
  then show ?thesis using b1(1) v1 c(3) by blast
qed

section \<open>The numbers of a JSON text and the top rank\<close>































lemma place_handler_success:
  assumes "place_handler gameSessions req = Some (PlaceSuccess res, S')"
  shows "\<exists>sid pm x y gs idx bm1 bm2.
    req_sessionId req = Some sid \<and> sid \<noteq> [] \<and> req_piece req = Some pm
    \<and> req_x req = Some x \<and> req_y req = Some y
    \<and> gameSessions sid = Some gs
    \<and> find_piece_loop (currentPieces gs) pm 0 = Some idx
    \<and> canPlace (boardManager gs) pm x y = Some True
    \<and> placePiece (boardManager gs) pm x y = Some (True, bm1)
    \<and> checkLines bm1 = Some (lineCleared res)
    \<and> (if line_count (lineCleared res) > 0 then clearLines bm1 (lineCleared res) = Some bm2
        else bm2 = bm1)
    \<and> lineClearScore res =
          (if line_count (lineCleared res) > 0 then line_clear_score (line_count (lineCleared res)) else 0)
    \<and> res_score res = score gs + blockCount pm * BASE_POINTS_PER_BLOCK + lineClearScore res
    \<and> res_pieces res = (currentPieces gs)[idx := None]
    \<and> res_board res = board bm2
    \<and> (if length (active_pieces (res_pieces res)) > 0
        then game_over_loop (boardSize bm2) (board bm2) (active_pieces (res_pieces res))
               = Some (isGameOver res)
        else isGameOver res = False)
    \<and> S' = gameSessions(sid \<mapsto> gs\<lparr>score := res_score res, currentPieces := res_pieces res,
                                      boardManager := bm2\<rparr>)"
  using assms unfolding place_handler_def line_count_def
  by (auto simp: Let_def split: option.splits if_splits prod.splits bind_splits)

text \<open>Running the handler on a request that passes every test.\<close>

lemma place_handler_run:
  assumes "sid \<noteq> []" and "gameSessions sid = Some gs"
    and "find_piece_loop (currentPieces gs) pm 0 = Some idx"
    and "js_index pm 0 = Some p0"
    and "\<not> (x < 0 \<or> y < 0 \<or> x + int (length pm) > int BOARD_SIZE \<or> y + int (length p0) > int BOARD_SIZE)"
    and "canPlace (boardManager gs) pm x y = Some True"
    and "placePiece (boardManager gs) pm x y = Some (True, bm1)"
    and "checkLines bm1 = Some ld"
    and "if line_count ld > 0 then clearLines bm1 ld = Some bm2 else bm2 = bm1"
    and "if length (active_pieces ((currentPieces gs)[idx := None])) > 0
         then game_over_loop (boardSize bm2) (board bm2) (active_pieces ((currentPieces gs)[idx := None]))
                = Some over
         else over = False"
  shows "\<exists>res S'. place_handler gameSessions
            \<lparr>req_sessionId = Some sid, req_piece = Some pm, req_x = Some x, req_y = Some y\<rparr>
          = Some (PlaceSuccess res, S')
          \<and> isGameOver res = over \<and> lineCleared res = ld \<and> res_board res = board bm2"
  using assms unfolding place_handler_def line_count_def
  apply (simp add: Let_def)
  apply (auto split: if_splits)
  done

lemma line_clear_score_values:
  "line_clear_score 0 = 0 \<and> line_clear_score 1 = 10 \<and> line_clear_score 2 = 24
   \<and> line_clear_score 3 = 42 \<and> line_clear_score 4 = 64"
  by (simp add: line_clear_score_def LINE_CLEAR_BASE_POINTS_def LINE_CLEAR_MULTIPLIER_def)

lemma reward_line_clear_score:
  "reward ld sc = (line_count ld > 0, sc + line_clear_score (line_count ld))"
  by (auto simp: reward_def line_count_def line_clear_score_def Let_def)

lemma rotate_loop_in_range:
  "\<forall>(r, c) \<in> set rcs. r < length m \<and> c < length (m ! r) \<and> c < length nm
       \<and> nRows - 1 - r < length (nm ! c) \<Longrightarrow>
   \<exists>nm'. rotate_loop m nm nRows rcs = Some nm' \<and> same_shape nm' nm"
proof (induction rcs arbitrary: nm)
  case Nil
  then show ?case by (simp add: same_shape_refl)
next
  case (Cons rc rcs)
  obtain r c where rc: "rc = (r, c)" by (cases rc)
  from Cons.prems have rng: "r < length m" "c < length (m ! r)" "c < length nm"
      "nRows - 1 - r < length (nm ! c)"
    and rest: "\<forall>(r, c) \<in> set rcs. r < length m \<and> c < length (m ! r) \<and> c < length nm
       \<and> nRows - 1 - r < length (nm ! c)"
    by (auto simp: rc)
  define n1 where "n1 = nm[c := (nm ! c)[nRows - 1 - r := m ! r ! c]]"
  have step: "rotate_loop m nm nRows (rc # rcs) = rotate_loop m n1 nRows rcs"
    using rng by (simp add: rc rd_in_range wr_in_range n1_def)
  have sh: "same_shape n1 nm"
    using rng by (auto simp: same_shape_def n1_def nth_list_update)
  have rest1: "\<forall>(r, c) \<in> set rcs. r < length m \<and> c < length (m ! r) \<and> c < length n1
       \<and> nRows - 1 - r < length (n1 ! c)"
    using rest sh by (auto simp: same_shape_def)
  from Cons.IH[OF rest1] obtain nm' where
    "rotate_loop m n1 nRows rcs = Some nm'" "same_shape nm' n1" by blast
  then show ?case
    unfolding step using same_shape_trans[OF _ sh] by blast
qed

lemma same_shape_replicate_valid:
  "same_shape m (replicate a (replicate b x)) \<Longrightarrow> 0 < a \<Longrightarrow> 0 < b \<Longrightarrow> valid_piece m"
  by (cases m) (auto simp: same_shape_def valid_piece_def list_all_length nth_Cons split: nat.splits)

lemma rotateMatrix_valid:
  assumes "valid_piece m"
  shows "\<exists>m'. rotateMatrix m = Some m' \<and> valid_piece m'"
proof -
  note vd = valid_pieceD[OF assms]
  let ?nm = "replicate (length (hd m)) (replicate (length m) (0::nat))"
  have "\<forall>(r, c) \<in> set (List.product [0..<length m] [0..<length (hd m)]).
          r < length m \<and> c < length (m ! r) \<and> c < length ?nm
          \<and> length m - 1 - r < length (?nm ! c)"
    using vd by auto
  from rotate_loop_in_range[OF this] obtain m' where
    m': "rotate_loop m ?nm (length m) (List.product [0..<length m] [0..<length (hd m)]) = Some m'"
    "same_shape m' ?nm" by blast
  have "rotateMatrix m = Some m'"
    using vd m'(1) by (simp add: rotateMatrix_def)
  moreover have "valid_piece m'"
    using same_shape_replicate_valid[OF m'(2)] vd by auto
  ultimately show ?thesis by blast
qed

lemma rotations_loop_valid:
  "valid_piece cur \<Longrightarrow> list_all valid_piece rotations \<Longrightarrow>
   \<exists>rs. rotations_loop k cur rotations = Some rs \<and> list_all valid_piece rs"
proof (induction k arbitrary: cur rotations)
  case 0
  then show ?case by simp
next
  case (Suc k)
  from rotateMatrix_valid[OF Suc.prems(1)] obtain cur' where
    c: "rotateMatrix cur = Some cur'" "valid_piece cur'" by blast
  have "list_all valid_piece (if cur \<in> set rotations then rotations else rotations @ [cur])"
    using Suc.prems by simp
  from Suc.IH[OF c(2) this] show ?case
    using c(1) by (simp add: Let_def)
qed

lemma getAllRotations_valid:
  "valid_piece m \<Longrightarrow> \<exists>rs. getAllRotations m = Some rs \<and> list_all valid_piece rs"
  unfolding getAllRotations_def by (rule rotations_loop_valid) simp_all

lemma random_index_less: "0 < n \<Longrightarrow> fst (random_index n g) < n"
  by (simp add: random_index_def next_random_def split: list.splits)

lemma set_insert_at: "set (take k ys @ x # drop k ys) = insert x (set ys)"
proof -
  have "set (take k ys @ x # drop k ys) = insert x (set (take k ys @ drop k ys))"
    by (simp only: set_append set_simps) blast
  then show ?thesis by simp
qed

lemma shuffle_set: "set (fst (shuffle xs g)) = set xs"
proof (induction xs arbitrary: g)
  case Nil
  then show ?case by simp
next
  case (Cons x xs)
  obtain ys g1 where s: "shuffle xs g = (ys, g1)" by (cases "shuffle xs g")
  obtain k g2 where r: "random_index (Suc (length ys)) g1 = (k, g2)"
    by (cases "random_index (Suc (length ys)) g1")
  have ys: "set ys = set xs" using Cons.IH[of g] s by simp
  have e: "set (take k ys @ x # drop k ys) = set (x # xs)"
    by (simp only: set_insert_at ys list.set)
  have "shuffle (x # xs) g = (take k ys @ x # drop k ys, g2)" by (simp add: s r)
  then show ?case using e by (simp only: fst_conv)
qed

lemma shuffle_length: "length (fst (shuffle xs g)) = length xs"
proof (induction xs arbitrary: g)
  case Nil
  then show ?case by simp
next
  case (Cons x xs)
  obtain ys g1 where s: "shuffle xs g = (ys, g1)" by (cases "shuffle xs g")
  obtain k g2 where r: "random_index (Suc (length ys)) g1 = (k, g2)"
    by (cases "random_index (Suc (length ys)) g1")
  have ys: "length ys = length xs" using Cons.IH[of g] s by simp
  have e: "length (take k ys @ x # drop k ys) = length (x # xs)"
    using ys by (simp add: min_def)
  have "shuffle (x # xs) g = (take k ys @ x # drop k ys, g2)" by (simp add: s r)
  then show ?case using e by (simp only: fst_conv)
qed

lemma canPlaceOnBoard_canPlace:
  "canPlaceOnBoard n brd piece row col = canPlace \<lparr>boardSize = n, board = brd\<rparr> piece row col"
  by (simp add: canPlace_def canPlaceOnBoard_def Let_def cong: if_cong)

lemma canPlaceOnBoard_valid:
  assumes "valid_board n brd" "valid_piece piece"
  shows "canPlaceOnBoard n brd piece row col =
           Some (fits n piece row col \<and> \<not> overlap brd piece (nat row) (nat col))"
  unfolding canPlaceOnBoard_canPlace
  using canPlace_valid[of "\<lparr>boardSize = n, board = brd\<rparr>" piece row col] assms
  by simp

lemma find_loop_valid:
  assumes "valid_board n brd" "valid_piece piece"
  shows "find_loop n brd piece rcs = Some (List.find (placeable n brd piece) rcs)"
proof (induction rcs)
  case Nil
  then show ?case by simp
next
  case (Cons rc rcs)
  obtain r c where rc: "rc = (r, c)" by (cases rc)
  show ?case
    using Cons.IH by (simp add: rc canPlaceOnBoard_valid[OF assms] placeable_def)
qed

lemma findValidPosition_valid:
  assumes "valid_board n brd" "valid_piece piece"
  shows "findValidPosition n brd piece =
     Some (List.find (placeable n brd piece)
            (List.product [0..<Suc n - length piece] [0..<Suc n - length (hd piece)]))"
  using valid_pieceD[OF assms(2)] by (simp add: findValidPosition_def find_loop_valid[OF assms])

lemma findValidPosition_found:
  assumes "valid_board n brd" "valid_piece piece"
    and "findValidPosition n brd piece = Some (Some (r, c))"
  shows "fits n piece (int r) (int c) \<and> \<not> overlap brd piece r c"
  using assms(3) unfolding findValidPosition_valid[OF assms(1,2)]
  by (auto simp: find_Some_iff placeable_def)

text \<open>No position is valid exactly when \<open>canPlaceOnBoard\<close> rejects every position.\<close>

lemma findValidPosition_none_iff:
  assumes "valid_board n brd" "valid_piece piece"
  shows "findValidPosition n brd piece = Some None \<longleftrightarrow>
         (\<forall>r c. \<not> placeable n brd piece (r, c))"
proof -
  let ?rcs = "List.product [0..<Suc n - length piece] [0..<Suc n - length (hd piece)]"
  have m: "(r, c) \<in> set ?rcs" if "placeable n brd piece (r, c)" for r c
    using that by (auto simp: placeable_def fits_def)
  have "(\<forall>rc \<in> set ?rcs. \<not> placeable n brd piece rc) \<longleftrightarrow> (\<forall>r c. \<not> placeable n brd piece (r, c))"
  proof
    assume a: "\<forall>rc \<in> set ?rcs. \<not> placeable n brd piece rc"
    show "\<forall>r c. \<not> placeable n brd piece (r, c)"
    proof (intro allI notI)
      fix r c assume p: "placeable n brd piece (r, c)"
      from m[OF p] a p show False by blast
    qed
  next
    assume "\<forall>r c. \<not> placeable n brd piece (r, c)"
    then show "\<forall>rc \<in> set ?rcs. \<not> placeable n brd piece rc" by auto
  qed
  then have e: "(\<forall>rc \<in> set ?rcs. \<not> placeable n brd piece rc) \<longleftrightarrow> (\<forall>r c. \<not> placeable n brd piece (r, c))" .
  have "findValidPosition n brd piece = Some None
          \<longleftrightarrow> List.find (placeable n brd piece) ?rcs = None"
    by (simp add: findValidPosition_valid[OF assms])
  also have "\<dots> \<longleftrightarrow> (\<forall>rc \<in> set ?rcs. \<not> placeable n brd piece rc)"
    unfolding find_None_iff by blast
  also note e
  finally show ?thesis .
qed

lemma variants_loop_valid:
  assumes "valid_board n tb"
  shows "list_all valid_piece vs \<Longrightarrow>
     \<exists>fp tb' g'. variants_loop n tb vs g = Some (fp, tb', g') \<and> valid_board n tb'
        \<and> (fp = None \<longrightarrow> tb' = tb)
        \<and> (\<forall>p. fp = Some p \<longrightarrow> matrix p \<in> set vs)"
proof (induction vs)
  case Nil
  then show ?case using assms by simp
next
  case (Cons v vs)
  then have v: "valid_piece v" and vs: "list_all valid_piece vs" by simp_all
  show ?case
  proof (cases "List.find (placeable n tb v)
            (List.product [0..<Suc n - length v] [0..<Suc n - length (hd v)])")
    case None
    then have "variants_loop n tb (v # vs) g = variants_loop n tb vs g"
      by (simp add: findValidPosition_valid[OF assms v])
    with Cons.IH[OF vs] show ?thesis by auto
  next
    case (Some rc)
    obtain r c where rc: "rc = (r, c)" by (cases rc)
    have f: "findValidPosition n tb v = Some (Some (r, c))"
      using Some rc by (simp add: findValidPosition_valid[OF assms v])
    from findValidPosition_found[OF assms v f] have "fits n v (int r) (int c)" by simp
    from simulate_valid[OF assms v this] obtain b2 where
      s: "simulatePlaceAndClear n tb v r c = Some b2" "valid_board n b2"
      by (auto simp: cleared_def)
    show ?thesis
      using f s by (auto simp: Let_def split: prod.splits)
  qed
qed

lemma attempts_loop_valid:
  assumes "list_all valid_piece lib" "lib \<noteq> []"
  shows "valid_board n tb \<Longrightarrow> attempts \<le> MAX_GENERATION_ATTEMPTS \<Longrightarrow>
     \<exists>fp tb' a g'. attempts_loop n lib tb attempts g = Some (fp, tb', a, g')
        \<and> valid_board n tb' \<and> a \<le> MAX_GENERATION_ATTEMPTS \<and> attempts \<le> a
        \<and> (fp = None \<longrightarrow> tb' = tb \<and> a = MAX_GENERATION_ATTEMPTS)
        \<and> (\<forall>p. fp = Some p \<longrightarrow> valid_piece (matrix p) \<and> attempts < a)"
proof (induction "MAX_GENERATION_ATTEMPTS - attempts" arbitrary: attempts g)
  case 0
  then have "attempts = MAX_GENERATION_ATTEMPTS" by simp
  then show ?case
    using "0.prems" by (subst attempts_loop.simps) simp
next
  case (Suc k)
  then have lt: "attempts < MAX_GENERATION_ATTEMPTS" by simp
  obtain si g1 where ri: "random_index (length lib) g = (si, g1)"
    by (cases "random_index (length lib) g")
  have "fst (random_index (length lib) g) < length lib"
    using assms(2) by (intro random_index_less) simp
  then have si: "si < length lib" by (simp add: ri)
  then have ji: "js_index lib si = Some (lib ! si)" by (simp add: js_index_def)
  have vs: "valid_piece (lib ! si)"
    using assms(1) si by (simp add: list_all_length)
  from getAllRotations_valid[OF vs] obtain rotations where
    ro: "getAllRotations (lib ! si) = Some rotations" "list_all valid_piece rotations" by blast
  obtain rotations' g2 where sh: "shuffle rotations g1 = (rotations', g2)"
    by (cases "shuffle rotations g1")
  have vr: "list_all valid_piece rotations'"
    using ro(2) shuffle_set[of rotations g1] sh by (simp add: list_all_iff)
  from variants_loop_valid[OF Suc.prems(1) vr, of g2] obtain fp tb' g3 where
    vl: "variants_loop n tb rotations' g2 = Some (fp, tb', g3)" "valid_board n tb'"
      "fp = None \<longrightarrow> tb' = tb" "\<forall>p. fp = Some p \<longrightarrow> matrix p \<in> set rotations'"
    by blast
  show ?case
  proof (cases fp)
    case (Some p)
    have "attempts_loop n lib tb attempts g = Some (Some p, tb', attempts + 1, g3)"
      using lt ri ji ro(1) sh vl(1) Some by (subst attempts_loop.simps) simp
    moreover have "valid_piece (matrix p)"
      using vl(4) Some vr by (auto simp: list_all_iff)
    ultimately show ?thesis
      using vl(2) lt by simp
  next
    case None
    have tb: "tb' = tb" using vl(3) None by simp
    have step: "attempts_loop n lib tb attempts g = attempts_loop n lib tb (attempts + 1) g3"
      using lt ri ji ro(1) sh vl(1) None tb by (subst attempts_loop.simps) simp
    have k: "k = MAX_GENERATION_ATTEMPTS - (attempts + 1)" using Suc.hyps(2) by simp
    from Suc.hyps(1)[OF k Suc.prems(1), of g3] lt obtain fp2 tb2 a g' where
      r: "attempts_loop n lib tb (attempts + 1) g3 = Some (fp2, tb2, a, g')"
        "valid_board n tb2" "a \<le> MAX_GENERATION_ATTEMPTS" "attempts + 1 \<le> a"
        "fp2 = None \<longrightarrow> tb2 = tb \<and> a = MAX_GENERATION_ATTEMPTS"
        "\<forall>p. fp2 = Some p \<longrightarrow> valid_piece (matrix p) \<and> attempts + 1 < a"
      by auto
    show ?thesis
      unfolding step using r by auto
  qed
qed

text \<open>With the random source exhausted every draw is 0 and the source stays exhausted.\<close>

lemma random_index_Nil: "random_index n [] = (0, [])"
  by (simp add: random_index_def next_random_def)

lemma shuffle_Nil: "snd (shuffle xs []) = []"
proof (induction xs)
  case Nil
  then show ?case by simp
next
  case (Cons x xs)
  obtain ys where "shuffle xs [] = (ys, [])" using Cons by (cases "shuffle xs []") simp
  then show ?case by (simp add: random_index_Nil)
qed

lemma variants_loop_none:
  "\<forall>v \<in> set vs. findValidPosition n tb v = Some None \<Longrightarrow>
   variants_loop n tb vs g = Some (None, tb, g)"
  by (induction vs) auto

text \<open>
  When no rotation of the first shape of the library has a position on the grid and the
  random source is exhausted, every attempt picks that shape and fails.
\<close>

lemma attempts_loop_stuck:
  assumes "js_index lib 0 = Some s" "getAllRotations s = Some rs"
    and "\<forall>v \<in> set rs. findValidPosition n tb v = Some None"
  shows "attempts \<le> MAX_GENERATION_ATTEMPTS \<Longrightarrow>
         attempts_loop n lib tb attempts [] = Some (None, tb, MAX_GENERATION_ATTEMPTS, [])"
proof (induction "MAX_GENERATION_ATTEMPTS - attempts" arbitrary: attempts)
  case 0
  then have "attempts = MAX_GENERATION_ATTEMPTS" by simp
  then show ?case by (subst attempts_loop.simps) simp
next
  case (Suc k)
  then have lt: "attempts < MAX_GENERATION_ATTEMPTS" by simp
  obtain rs' where sh: "shuffle rs [] = (rs', [])"
    using shuffle_Nil[of rs] by (cases "shuffle rs []") simp
  have "set rs' = set rs" using shuffle_set[of rs "[]"] sh by simp
  then have vl: "variants_loop n tb rs' [] = Some (None, tb, [])"
    using assms(3) by (intro variants_loop_none) simp
  have step: "attempts_loop n lib tb attempts [] = attempts_loop n lib tb (attempts + 1) []"
    using lt assms(1,2) sh vl by (subst attempts_loop.simps) (simp add: random_index_Nil)
  have k: "k = MAX_GENERATION_ATTEMPTS - (attempts + 1)" using Suc.hyps(2) by simp
  show ?case
    unfolding step using Suc.hyps(1)[OF k] lt by simp
qed

lemma fallback_piece_matrix:
  assumes "lib \<noteq> []"
  shows "matrix (fst (fallback_piece lib g)) = lib ! fst (random_index (length lib) g)
         \<and> fst (random_index (length lib) g) < length lib"
proof -
  have "fst (random_index (length lib) g) < length lib"
    using assms by (intro random_index_less) simp
  then show ?thesis
    by (auto simp: fallback_piece_def js_index_def Let_def split: prod.splits)
qed

lemma pieces_loop_valid:
  assumes "list_all valid_piece lib" "lib \<noteq> []"
  shows "valid_board n tb \<Longrightarrow>
     \<exists>result counts tb' g'. pieces_loop n lib k tb g = Some (result, counts, tb', g')
        \<and> length result = k \<and> length counts = k
        \<and> (\<forall>a \<in> set counts. a \<le> MAX_GENERATION_ATTEMPTS)
        \<and> (\<forall>p \<in> set result. valid_piece (matrix p))"
proof (induction k arbitrary: tb g)
  case 0
  then show ?case by simp
next
  case (Suc k)
  have "0 \<le> MAX_GENERATION_ATTEMPTS" by simp
  from attempts_loop_valid[OF assms Suc.prems this, of g] obtain fp tb' a g1 where
    al: "attempts_loop n lib tb 0 g = Some (fp, tb', a, g1)" "valid_board n tb'"
      "a \<le> MAX_GENERATION_ATTEMPTS" "\<forall>p. fp = Some p \<longrightarrow> valid_piece (matrix p)"
    by blast
  obtain foundPiece g2 where
    fp: "(case fp of Some p \<Rightarrow> (p, g1) | None \<Rightarrow> fallback_piece lib g1) = (foundPiece, g2)"
    by (cases "case fp of Some p \<Rightarrow> (p, g1) | None \<Rightarrow> fallback_piece lib g1")
  have vf: "valid_piece (matrix foundPiece)"
  proof (cases fp)
    case None
    then have "foundPiece = fst (fallback_piece lib g1)" using fp by simp
    then show ?thesis
      using fallback_piece_matrix[OF assms(2), of g1] assms(1) by (simp add: list_all_length)
  next
    case (Some p)
    then show ?thesis using fp al(4) by simp
  qed
  from Suc.IH[OF al(2), of g2] obtain result counts tb'' g3 where
    r: "pieces_loop n lib k tb' g2 = Some (result, counts, tb'', g3)"
      "length result = k" "length counts = k"
      "\<forall>a \<in> set counts. a \<le> MAX_GENERATION_ATTEMPTS"
      "\<forall>p \<in> set result. valid_piece (matrix p)"
    by blast
  have "pieces_loop n lib (Suc k) tb g = Some (foundPiece # result, a # counts, tb'', g3)"
    using al(1) fp r(1) by simp
  then show ?case
    using r(2-5) al(3) vf by simp
qed

lemma generatePieces_valid:
  assumes "list_all valid_piece lib" "lib \<noteq> []" "valid_board n b"
  shows "\<exists>result counts tb' g'. pieces_loop n lib k b g = Some (result, counts, tb', g')
        \<and> generatePieces n lib k b g = Some (result, g')
        \<and> length result = k \<and> length counts = k
        \<and> (\<forall>a \<in> set counts. a \<le> MAX_GENERATION_ATTEMPTS)
        \<and> (\<forall>p \<in> set result. valid_piece (matrix p))"
proof -
  from pieces_loop_valid[OF assms, of k g] obtain result counts tb' g' where
    r: "pieces_loop n lib k b g = Some (result, counts, tb', g')"
      "length result = k" "length counts = k"
      "\<forall>a \<in> set counts. a \<le> MAX_GENERATION_ATTEMPTS"
      "\<forall>p \<in> set result. valid_piece (matrix p)"
    by blast
  have "generatePieces n lib k b g = Some (result, g')"
    using r(1) by (simp add: generatePieces_def)
  then show ?thesis using r by blast
qed

lemma RAW_SHAPES_valid: "list_all valid_piece RAW_SHAPES \<and> RAW_SHAPES \<noteq> [] \<and> length RAW_SHAPES = 11"
  by code_simp

lemma rows_equal_loop_iff:
  "rows_equal_loop ra rb js \<longleftrightarrow> (\<forall>j \<in> set js. ra ! j = rb ! j)"
  by (induction js) simp_all

lemma row_equal_iff:
  "length ra = length rb \<and> rows_equal_loop ra rb [0..<length ra] \<longleftrightarrow> ra = rb"
proof
  assume "length ra = length rb \<and> rows_equal_loop ra rb [0..<length ra]"
  then show "ra = rb"
    unfolding rows_equal_loop_iff by (intro nth_equalityI) auto
next
  assume "ra = rb"
  then show "length ra = length rb \<and> rows_equal_loop ra rb [0..<length ra]"
    unfolding rows_equal_loop_iff by simp
qed

lemma matricesEqual_loop_iff:
  "matricesEqual_loop a b ks \<longleftrightarrow> (\<forall>i \<in> set ks. a ! i = b ! i)"
proof (induction ks)
  case Nil
  then show ?case by simp
next
  case (Cons i ks)
  have "matricesEqual_loop a b (i # ks) \<longleftrightarrow>
          (length (a ! i) = length (b ! i) \<and> rows_equal_loop (a ! i) (b ! i) [0..<length (a ! i)])
          \<and> matricesEqual_loop a b ks"
    by simp
  then show ?case
    unfolding row_equal_iff Cons.IH by simp
qed

lemma matricesEqual_iff: "matricesEqual a b \<longleftrightarrow> a = b"
proof
  assume "matricesEqual a b"
  then have "length a = length b" "\<forall>i \<in> set [0..<length a]. a ! i = b ! i"
    by (auto simp: matricesEqual_def matricesEqual_loop_iff split: if_splits)
  then show "a = b" by (intro nth_equalityI) auto
next
  assume "a = b"
  then show "matricesEqual a b"
    by (simp add: matricesEqual_def matricesEqual_loop_iff)
qed

lemma fallback_piece_Nil:
  "js_index lib 0 = Some s \<Longrightarrow>
   fallback_piece lib [] = (\<lparr>matrix = s, color = COLORS ! 0, piece_id = 0\<rparr>, [])"
  by (simp add: fallback_piece_def random_index_Nil next_random_def)

lemma pieces_loop_stuck:
  assumes "js_index lib 0 = Some s" "getAllRotations s = Some rs"
    and "\<forall>v \<in> set rs. findValidPosition n tb v = Some None"
  shows "pieces_loop n lib k tb [] =
           Some (replicate k \<lparr>matrix = s, color = COLORS ! 0, piece_id = 0\<rparr>,
                 replicate k MAX_GENERATION_ATTEMPTS, tb, [])"
proof (induction k)
  case 0
  then show ?case by simp
next
  case (Suc k)
  have "attempts_loop n lib tb 0 [] = Some (None, tb, MAX_GENERATION_ATTEMPTS, [])"
    by (rule attempts_loop_stuck[OF assms]) simp
  then show ?case
    using Suc fallback_piece_Nil[OF assms(1)] by simp
qed

lemma RAW_SHAPES_first: "js_index RAW_SHAPES 0 = Some P1"
  by code_simp

lemma bar_rotations: "getAllRotations P1 = Some bar_rotations"
  by code_simp

lemma x_board_no_bar: "findValidPosition BOARD_SIZE (board x_board) P1 = Some None"
  by code_simp

lemma x_board_no_upright_bar:
  "findValidPosition BOARD_SIZE (board x_board) (bar_rotations ! 1) = Some None"
  by code_simp

lemma x_board_stuck:
  "\<forall>v \<in> set bar_rotations. findValidPosition BOARD_SIZE (board x_board) v = Some None"
proof -
  have "bar_rotations = [P1, bar_rotations ! 1]" by (simp add: bar_rotations_def)
  then have "set bar_rotations = {P1, bar_rotations ! 1}"
    by (metis list.simps(15) empty_set)
  then show ?thesis using x_board_no_bar x_board_no_upright_bar by simp
qed

lemma x_board_pieces:
  "pieces_loop BOARD_SIZE RAW_SHAPES k (board x_board) [] =
     Some (replicate k stuck_piece, replicate k MAX_GENERATION_ATTEMPTS, board x_board, [])"
  unfolding stuck_piece_def
  by (rule pieces_loop_stuck[OF RAW_SHAPES_first bar_rotations x_board_stuck])

lemma game_over_loop_valid:
  assumes "valid_board n brd"
  shows "list_all (\<lambda>p. valid_piece (matrix p)) ps \<Longrightarrow>
         game_over_loop n brd ps
           = Some (\<forall>p \<in> set ps. findValidPosition n brd (matrix p) = Some None)"
proof (induction ps)
  case Nil
  then show ?case by simp
next
  case (Cons p ps)
  then have vp: "valid_piece (matrix p)" by simp
  obtain r where r: "findValidPosition n brd (matrix p) = Some r"
    using findValidPosition_valid[OF assms vp] by simp
  show ?case
    using Cons r by (cases r) auto
qed

lemma active_pieces_update:
  "set (active_pieces (ps[i := None])) \<subseteq> set (active_pieces ps)"
proof -
  have "set (ps[i := None]) \<subseteq> insert None (set ps)" by (rule set_update_subset_insert)
  then show ?thesis by (auto simp: active_pieces_def)
qed

lemma find_piece_loop_found:
  "find_piece_loop ps pm i = Some k \<Longrightarrow>
     i \<le> k \<and> k - i < length ps \<and> (\<exists>pc. ps ! (k - i) = Some pc \<and> matricesEqual (matrix pc) pm)"
proof (induction ps arbitrary: i)
  case Nil
  then show ?case by simp
next
  case (Cons p ps)
  show ?case
  proof (cases "\<exists>pc. p = Some pc \<and> matricesEqual (matrix pc) pm")
    case True
    then show ?thesis using Cons.prems by auto
  next
    case False
    then have "find_piece_loop ps pm (Suc i) = Some k"
      using Cons.prems by (auto split: option.splits if_splits)
    from Cons.IH[OF this] obtain pc where
      r: "Suc i \<le> k" "k - Suc i < length ps" "ps ! (k - Suc i) = Some pc"
         "matricesEqual (matrix pc) pm" by blast
    have e: "k - i = Suc (k - Suc i)" using r(1) by simp
    show ?thesis
      using r unfolding e by auto
  qed
qed

lemma active_pieces_member:
  "i < length ps \<Longrightarrow> ps ! i = Some pc \<Longrightarrow> pc \<in> set (active_pieces ps)"
proof -
  assume "i < length ps" "ps ! i = Some pc"
  then have "Some pc \<in> set (filter (\<lambda>p. p \<noteq> None) ps)"
    using nth_mem[of i ps] by simp
  then have "the (Some pc) \<in> the ` set (filter (\<lambda>p. p \<noteq> None) ps)"
    by (rule imageI)
  then show ?thesis by (simp add: active_pieces_def)
qed

text \<open>
  The placement half of C3: after a successful placement that leaves a piece, the response
  reports game over exactly when no remaining piece has a valid position on the new grid.
\<close>

lemma place_reports_game_over:
  assumes h: "place_handler gameSessions req = Some (PlaceSuccess res, S')"
    and sid: "req_sessionId req = Some sid" and gs: "gameSessions sid = Some gs"
    and v: "valid_session gs"
    and a: "active_pieces (res_pieces res) \<noteq> []"
  shows "isGameOver res \<longleftrightarrow>
           (\<forall>p \<in> set (active_pieces (res_pieces res)).
              findValidPosition (boardSize (boardManager gs)) (res_board res) (matrix p) = Some None)"
proof -
  from place_handler_success[OF h] sid gs obtain pm x y idx bm1 bm2 where
    f: "find_piece_loop (currentPieces gs) pm 0 = Some idx"
      "canPlace (boardManager gs) pm x y = Some True"
      "placePiece (boardManager gs) pm x y = Some (True, bm1)"
      "checkLines bm1 = Some (lineCleared res)"
      "if line_count (lineCleared res) > 0 then clearLines bm1 (lineCleared res) = Some bm2
        else bm2 = bm1"
      "res_pieces res = (currentPieces gs)[idx := None]"
      "res_board res = board bm2"
      "if length (active_pieces (res_pieces res)) > 0
        then game_over_loop (boardSize bm2) (board bm2) (active_pieces (res_pieces res))
               = Some (isGameOver res)
        else isGameOver res = False"
    by auto
  let ?bm = "boardManager gs"
  have vb: "valid_board (boardSize ?bm) (board ?bm)" using v by (simp add: valid_session_def)
  have va: "list_all (\<lambda>p. valid_piece (matrix p)) (active_pieces (res_pieces res))"
    using v active_pieces_update[of "currentPieces gs" idx] f(6)
    by (auto simp: valid_session_def list_all_iff)
  from find_piece_loop_found[OF f(1)] obtain pc where
    pc: "idx < length (currentPieces gs)" "currentPieces gs ! idx = Some pc" "matrix pc = pm"
    by (auto simp: matricesEqual_iff)
  then have "pc \<in> set (active_pieces (currentPieces gs))"
    by (intro active_pieces_member[of idx]) simp_all
  then have vp: "valid_piece pm"
    using v pc(3) by (auto simp: valid_session_def list_all_iff)
  from placePiece_ok[OF vb vp f(2)] f(3) obtain brd' where
    b1: "bm1 = ?bm\<lparr>board := brd'\<rparr>" "valid_board (boardSize ?bm) brd'" by auto
  then have v1: "valid_board (boardSize bm1) (board bm1)" by simp
  have v2: "boardSize bm2 = boardSize ?bm \<and> valid_board (boardSize bm2) (board bm2)"
  proof (cases "line_count (lineCleared res) > 0")
    case False
    then show ?thesis using f(5) v1 b1 by simp
  next
    case True
    have "lineCleared res = \<lparr>rows = full_rows (boardSize bm1) (board bm1),
                               cols = full_cols (boardSize bm1) (board bm1)\<rparr>"
      using checkLines_valid[OF v1] f(4) by simp
    with clearLines_valid[OF v1] f(5) True b1 show ?thesis
      by (auto simp: cleared_def)
  qed
  have "game_over_loop (boardSize bm2) (board bm2) (active_pieces (res_pieces res))
          = Some (isGameOver res)"
    using f(8) a by simp
  then show ?thesis
    using game_over_loop_valid[OF conjunct2[OF v2] va] v2 f(7) by simp
qed



lemma x_board_generate:
  "generatePieces BOARD_SIZE RAW_SHAPES PIECES_PER_ROUND (board x_board) []
        = Some ([stuck_piece, stuck_piece, stuck_piece], [])"
proof -
  have rep: "replicate PIECES_PER_ROUND stuck_piece = [stuck_piece, stuck_piece, stuck_piece]"
    by (simp add: PIECES_PER_ROUND_def numeral_3_eq_3)
  show ?thesis
    by (simp add: generatePieces_def x_board_pieces rep)
qed


lemma empty8_valid: "valid_board BOARD_SIZE (board empty8)"
  by code_simp

lemma stuck_replenish:
  "requestNewPieces_handler [''s1'' \<mapsto> stuck_session] (Some ''s1'') []
     = Some (NewPieces [stuck_piece, stuck_piece, stuck_piece],
             [''s1'' \<mapsto> stuck_session\<lparr>currentPieces :=
                 [Some stuck_piece, Some stuck_piece, Some stuck_piece]\<rparr>],
             [])"
proof -
  have m: "boardManager stuck_session = x_board" "shapeLibrary stuck_session = RAW_SHAPES"
    by (simp_all add: stuck_session_def)
  have n: "boardSize x_board = BOARD_SIZE" by (simp add: x_board_def)
  have g: "generatePieces (boardSize (boardManager stuck_session)) (shapeLibrary stuck_session)
             PIECES_PER_ROUND (board (boardManager stuck_session)) []
           = Some ([stuck_piece, stuck_piece, stuck_piece], [])"
    unfolding m n by (rule x_board_generate)
  have s: "shuffle [stuck_piece, stuck_piece, stuck_piece] []
             = ([stuck_piece, stuck_piece, stuck_piece], [])"
    by (simp add: random_index_Nil)
  have c: "color stuck_piece \<noteq> []" by code_simp
  have e: "list_all (\<lambda>p. p = None) (currentPieces stuck_session)"
    by (simp add: stuck_session_def)
  show ?thesis
    using g s c e by (simp add: requestNewPieces_handler_def PIECES_PER_ROUND_def)
qed

section \<open>The store: frame and refinement\<close>

lemma writes_only_refl: "writes_only A st st"
  by (simp add: writes_only_def)

lemma writes_only_trans: "writes_only A st st1 \<Longrightarrow> writes_only A st1 st2 \<Longrightarrow> writes_only A st st2"
  by (simp add: writes_only_def)

lemma wr_st_frame: "wr_st st refs i j v = Some st' \<Longrightarrow> writes_only (set refs) st st'"
  by (auto simp: wr_st_def writes_only_def js_index_def split: if_splits)

lemma place_loop_st_frame:
  "place_loop_st st refs piece row col rcs = Some st' \<Longrightarrow> writes_only (set refs) st st'"
proof (induction rcs arbitrary: st)
  case Nil
  then show ?case by (simp add: writes_only_refl)
next
  case (Cons rc rcs)
  obtain r c where rc: "rc = (r, c)" by (cases rc)
  from Cons.prems show ?case
    using Cons.IH writes_only_trans[OF wr_st_frame]
    by (auto simp: rc split: bind_splits if_splits)
qed

lemma clear_cells_st_frame:
  "clear_cells_st st refs rcs = Some st' \<Longrightarrow> writes_only (set refs) st st'"
proof (induction rcs arbitrary: st)
  case Nil
  then show ?case by (simp add: writes_only_refl)
next
  case (Cons rc rcs)
  obtain r c where rc: "rc = (r, c)" by (cases rc)
  from Cons.prems show ?case
    using Cons.IH writes_only_trans[OF wr_st_frame]
    by (auto simp: rc split: bind_splits)
qed

lemma simulate_st_frame:
  assumes "simulatePlaceAndClear_st n refs piece r c st = Some st'"
  shows "writes_only (set refs) st st'"
proof -
  from assms obtain st1 st2 rs cs where
    1: "(case piece of [] \<Rightarrow> Some st
         | p0 # _ \<Rightarrow> place_loop_st st refs piece r c
                       (List.product [0..<length piece] [0..<length p0])) = Some st1"
    and 2: "clear_cells_st st1 refs (row_cells n rs) = Some st2"
    and 3: "clear_cells_st st2 refs (col_cells n cs) = Some st'"
    by (auto simp: simulatePlaceAndClear_st_def split: bind_splits)
  have "writes_only (set refs) st st1"
    using 1 place_loop_st_frame by (cases piece) (auto simp: writes_only_refl)
  then show ?thesis
    using clear_cells_st_frame[OF 2] clear_cells_st_frame[OF 3] writes_only_trans by blast
qed

lemma variants_loop_st_frame:
  "variants_loop_st n refs vs g st = Some (fp, g', st') \<Longrightarrow> writes_only (set refs) st st'"
proof (induction vs)
  case Nil
  then show ?case by (simp add: writes_only_refl)
next
  case (Cons v vs)
  from Cons.prems show ?case
    using Cons.IH simulate_st_frame
    by (auto simp: Let_def split: bind_splits option.splits prod.splits)
qed

lemma attempts_loop_st_frame:
  "attempts_loop_st n lib refs attempts g st = Some (fp, a, g', st') \<Longrightarrow>
   writes_only (set refs) st st'"
proof (induction "MAX_GENERATION_ATTEMPTS - attempts" arbitrary: attempts g st)
  case 0
  then show ?case
    by (subst (asm) attempts_loop_st.simps) (simp add: writes_only_refl)
next
  case (Suc k)
  then have lt: "attempts < MAX_GENERATION_ATTEMPTS" by simp
  from Suc.prems lt obtain vs g2 found g3 st1 where
    v: "variants_loop_st n refs vs g2 st = Some (found, g3, st1)"
    and r: "case found of Some p \<Rightarrow> Some (fp, a, g', st') = Some (Some p, attempts + 1, g3, st1)
            | None \<Rightarrow> attempts_loop_st n lib refs (attempts + 1) g3 st1 = Some (fp, a, g', st')"
    by (subst (asm) attempts_loop_st.simps)
       (auto simp: Let_def split: bind_splits prod.splits option.splits)
  note f1 = variants_loop_st_frame[OF v]
  show ?case
  proof (cases found)
    case (Some p)
    then show ?thesis using r f1 by simp
  next
    case None
    have k: "k = MAX_GENERATION_ATTEMPTS - (attempts + 1)" using Suc.hyps(2) by simp
    from r None have "attempts_loop_st n lib refs (attempts + 1) g3 st1 = Some (fp, a, g', st')"
      by simp
    from Suc.hyps(1)[OF k this] f1 show ?thesis
      using writes_only_trans by blast
  qed
qed

lemma pieces_loop_st_frame:
  "pieces_loop_st n lib k refs g st = Some (result, g', st') \<Longrightarrow> writes_only (set refs) st st'"
proof (induction k arbitrary: g st result)
  case 0
  then show ?case by (simp add: writes_only_refl)
next
  case (Suc k)
  from Suc.prems obtain found a g1 st1 g2 res where
    1: "attempts_loop_st n lib refs 0 g st = Some (found, a, g1, st1)"
    and 2: "pieces_loop_st n lib k refs g2 st1 = Some (res, g', st')"
    by (auto simp: Let_def split: bind_splits prod.splits)
  from attempts_loop_st_frame[OF 1] Suc.IH[OF 2] show ?case
    using writes_only_trans by blast
qed

lemma clone_rows_fresh:
  "clone_rows st refs = (copies, st') \<Longrightarrow>
     (\<forall>a \<in> set copies. next_addr st \<le> a \<and> a < next_addr st')
     \<and> next_addr st \<le> next_addr st'
     \<and> (\<forall>a < next_addr st. rows_at st' a = rows_at st a)
     \<and> distinct copies"
proof (induction refs arbitrary: st copies st')
  case Nil
  then show ?case by simp
next
  case (Cons row rest)
  define st1 where "st1 = st\<lparr>rows_at := (rows_at st)(next_addr st := rows_at st row),
                              next_addr := Suc (next_addr st)\<rparr>"
  obtain cs st2 where c: "clone_rows st1 rest = (cs, st2)" by (cases "clone_rows st1 rest")
  from Cons.prems have e: "copies = next_addr st # cs" "st' = st2"
    by (simp_all add: Let_def st1_def[symmetric] c)
  from Cons.IH[OF c] have ih:
    "\<forall>a \<in> set cs. next_addr st1 \<le> a \<and> a < next_addr st2"
    "next_addr st1 \<le> next_addr st2"
    "\<forall>a < next_addr st1. rows_at st2 a = rows_at st1 a"
    "distinct cs" by simp_all
  have n1: "next_addr st1 = Suc (next_addr st)" by (simp add: st1_def)
  have r1: "\<forall>a < next_addr st. rows_at st1 a = rows_at st a" by (simp add: st1_def)
  show ?case
    unfolding e using ih r1 by (auto simp: n1)
qed

lemma map_fun_upd_nth:
  assumes "distinct refs" "i < length refs"
  shows "map (f(refs ! i := x)) refs = (map f refs)[i := x]"
proof (rule nth_equalityI)
  show "length (map (f(refs ! i := x)) refs) = length ((map f refs)[i := x])" by simp
next
  fix k assume "k < length (map (f(refs ! i := x)) refs)"
  then have k: "k < length refs" by simp
  have "refs ! k = refs ! i \<longleftrightarrow> k = i"
    using assms k by (simp add: nth_eq_iff_index_eq)
  then show "map (f(refs ! i := x)) refs ! k = (map f refs)[i := x] ! k"
    using k assms(2) by (simp add: nth_list_update)
qed

lemma grid_of_update:
  assumes "distinct refs" "i < length refs"
  shows "grid_of (st\<lparr>rows_at := (rows_at st)(refs ! i := x)\<rparr>) refs = (grid_of st refs)[i := x]"
  using map_fun_upd_nth[OF assms] by (simp add: grid_of_def)

lemma wr_st_refines:
  assumes "distinct refs"
  shows "map_option (\<lambda>s. grid_of s refs) (wr_st st refs i j v) = wr (grid_of st refs) i j v"
proof (cases "i < length refs")
  case False
  then show ?thesis by (simp add: wr_st_def wr_def js_index_def grid_of_def)
next
  case True
  then have "js_index refs i = Some (refs ! i)"
    "js_index (grid_of st refs) i = Some (rows_at st (refs ! i))"
    by (simp_all add: js_index_def grid_of_def)
  then show ?thesis
    using grid_of_update[OF assms True] by (simp add: wr_st_def wr_def)
qed

lemma place_loop_st_refines:
  assumes "distinct refs"
  shows "map_option (\<lambda>s. grid_of s refs) (place_loop_st st refs piece row col rcs)
           = place_loop (grid_of st refs) piece row col rcs"
proof (induction rcs arbitrary: st)
  case Nil
  then show ?case by simp
next
  case (Cons rc rcs)
  obtain r c where rc: "rc = (r, c)" by (cases rc)
  show ?case
  proof (cases "rd piece r c")
    case None
    then show ?thesis by (simp add: rc)
  next
    case (Some p)
    show ?thesis
    proof (cases "p = Num 1")
      case False
      then show ?thesis using Some Cons.IH by (simp add: rc)
    next
      case True
      note w = wr_st_refines[OF assms, of st "row + r" "col + c" 1]
      show ?thesis
      proof (cases "wr_st st refs (row + r) (col + c) 1")
        case None
        then show ?thesis using Some True w by (simp add: rc)
      next
        case (Some st1)
        then have "wr (grid_of st refs) (row + r) (col + c) 1 = Some (grid_of st1 refs)"
          using w by simp
        then show ?thesis
          using \<open>rd piece r c = Some p\<close> True Some Cons.IH[of st1] by (simp add: rc)
      qed
    qed
  qed
qed

lemma clear_cells_st_refines:
  assumes "distinct refs"
  shows "map_option (\<lambda>s. grid_of s refs) (clear_cells_st st refs rcs)
           = clear_cells (grid_of st refs) rcs"
proof (induction rcs arbitrary: st)
  case Nil
  then show ?case by simp
next
  case (Cons rc rcs)
  obtain r c where rc: "rc = (r, c)" by (cases rc)
  note w = wr_st_refines[OF assms, of st r c 0]
  show ?case
  proof (cases "wr_st st refs r c 0")
    case None
    then show ?thesis using w by (simp add: rc)
  next
    case (Some st1)
    then have "wr (grid_of st refs) r c 0 = Some (grid_of st1 refs)"
      using w by simp
    then show ?thesis
      using Some Cons.IH[of st1] by (simp add: rc)
  qed
qed

lemma map_option_bind:
  "map_option f (x \<bind> k) = x \<bind> (\<lambda>y. map_option f (k y))"
  by (cases x) simp_all

lemma bind_map_option:
  "map_option f x \<bind> k = x \<bind> (\<lambda>y. k (f y))"
  by (cases x) simp_all

lemma simulate_st_refines:
  assumes "distinct refs"
  shows "map_option (\<lambda>s. grid_of s refs) (simulatePlaceAndClear_st n refs piece r c st)
           = simulatePlaceAndClear n (grid_of st refs) piece r c"
proof -
  let ?G = "\<lambda>s. grid_of s refs"
  let ?P = "case piece of [] \<Rightarrow> Some st
             | p0 # _ \<Rightarrow> place_loop_st st refs piece r c
                           (List.product [0..<length piece] [0..<length p0])"
  have p: "(case piece of [] \<Rightarrow> Some (grid_of st refs)
             | p0 # _ \<Rightarrow> place_loop (grid_of st refs) piece r c
                           (List.product [0..<length piece] [0..<length p0]))
           = map_option ?G ?P"
    by (cases piece) (simp_all add: place_loop_st_refines[OF assms])
  show ?thesis
  proof (cases ?P)
    case None
    then show ?thesis
      by (simp add: simulatePlaceAndClear_st_def simulatePlaceAndClear_def p)
  next
    case (Some st1)
    note P = this
    show ?thesis
    proof (cases "full_rows_loop (grid_of st1 refs) [0..<n]")
      case None
      then show ?thesis
        using P by (simp add: simulatePlaceAndClear_st_def simulatePlaceAndClear_def p)
    next
      case (Some rs)
      note R = this
      show ?thesis
      proof (cases "full_cols_loop n (grid_of st1 refs) [0..<n]")
        case None
        then show ?thesis
          using P R by (simp add: simulatePlaceAndClear_st_def simulatePlaceAndClear_def p)
      next
        case (Some cs)
        note C = this
        note c1 = clear_cells_st_refines[OF assms, of st1 "row_cells n rs"]
        show ?thesis
        proof (cases "clear_cells_st st1 refs (row_cells n rs)")
          case None
          then show ?thesis
            using P R C c1 by (simp add: simulatePlaceAndClear_st_def simulatePlaceAndClear_def p)
        next
          case (Some st2)
          then have "clear_cells (grid_of st1 refs) (row_cells n rs) = Some (grid_of st2 refs)"
            using c1 by simp
          then show ?thesis
            using P R C Some clear_cells_st_refines[OF assms, of st2 "col_cells n cs"]
            by (simp add: simulatePlaceAndClear_st_def simulatePlaceAndClear_def p)
        qed
      qed
    qed
  qed
qed

lemma variants_loop_st_refines:
  assumes "distinct refs"
  shows "map_option (\<lambda>(fp, g', st'). (fp, grid_of st' refs, g')) (variants_loop_st n refs vs g st)
           = variants_loop n (grid_of st refs) vs g"
proof (induction vs)
  case Nil
  then show ?case by simp
next
  case (Cons v vs)
  show ?case
  proof (cases "findValidPosition n (grid_of st refs) v")
    case None
    then show ?thesis by simp
  next
    case (Some placement)
    note F = this
    show ?thesis
    proof (cases placement)
      case None
      then show ?thesis using F Cons.IH by simp
    next
      case (Some rc)
      obtain r c where rc: "rc = (r, c)" by (cases rc)
      note s = simulate_st_refines[OF assms, of n v r c st]
      show ?thesis
      proof (cases "simulatePlaceAndClear_st n refs v r c st")
        case None
        then show ?thesis
          using F Some rc s by (simp add: Let_def split: prod.splits)
      next
        case (Some st1)
        then have "simulatePlaceAndClear n (grid_of st refs) v r c = Some (grid_of st1 refs)"
          using s by simp
        then show ?thesis
          using F \<open>placement = Some rc\<close> rc Some by (simp add: Let_def split: prod.splits)
      qed
    qed
  qed
qed

lemma attempts_loop_st_refines:
  assumes "distinct refs"
  shows "map_option (\<lambda>(fp, a, g', st'). (fp, grid_of st' refs, a, g'))
            (attempts_loop_st n lib refs attempts g st)
           = attempts_loop n lib (grid_of st refs) attempts g"
proof (induction "MAX_GENERATION_ATTEMPTS - attempts" arbitrary: attempts g st)
  case 0
  then show ?case
    by (subst attempts_loop_st.simps, subst attempts_loop.simps) simp
next
  case (Suc k)
  then have lt: "attempts < MAX_GENERATION_ATTEMPTS" by simp
  have k: "k = MAX_GENERATION_ATTEMPTS - (attempts + 1)" using Suc.hyps(2) by simp
  note IH = Suc.hyps(1)[OF k]
  obtain si g1 where ri: "random_index (length lib) g = (si, g1)"
    by (cases "random_index (length lib) g")
  show ?case
  proof (cases "js_index lib si")
    case None
    then show ?thesis
      using lt ri by (subst attempts_loop_st.simps, subst attempts_loop.simps) simp
  next
    case (Some randomShape)
    note J = this
    show ?thesis
    proof (cases "getAllRotations randomShape")
      case None
      then show ?thesis
        using lt ri J by (subst attempts_loop_st.simps, subst attempts_loop.simps) simp
    next
      case (Some rotations)
      note R = this
      obtain rotations' g2 where sh: "shuffle rotations g1 = (rotations', g2)"
        by (cases "shuffle rotations g1")
      note v = variants_loop_st_refines[OF assms, of n rotations' g2 st]
      show ?thesis
      proof (cases "variants_loop_st n refs rotations' g2 st")
        case None
        then have "variants_loop n (grid_of st refs) rotations' g2 = None"
          using v by simp
        then show ?thesis
          using lt ri J R sh None
          by (subst attempts_loop_st.simps, subst attempts_loop.simps) simp
      next
        case (Some x)
        obtain fp g3 st1 where x: "x = (fp, g3, st1)" by (cases x)
        have pv: "variants_loop n (grid_of st refs) rotations' g2 = Some (fp, grid_of st1 refs, g3)"
          using v Some x by simp
        show ?thesis
        proof (cases fp)
          case None
          have l: "attempts_loop_st n lib refs attempts g st
                     = attempts_loop_st n lib refs (attempts + 1) g3 st1"
            using lt ri J R sh Some x None by (subst attempts_loop_st.simps) simp
          have r: "attempts_loop n lib (grid_of st refs) attempts g
                     = attempts_loop n lib (grid_of st1 refs) (attempts + 1) g3"
            using lt ri J R sh pv None by (subst attempts_loop.simps) simp
          show ?thesis unfolding l r by (rule IH)
        next
          case (Some p)
          have l: "attempts_loop_st n lib refs attempts g st = Some (Some p, attempts + 1, g3, st1)"
            using lt ri J R sh \<open>variants_loop_st n refs rotations' g2 st = Some x\<close> x Some
            by (subst attempts_loop_st.simps) simp
          have r: "attempts_loop n lib (grid_of st refs) attempts g
                     = Some (Some p, grid_of st1 refs, attempts + 1, g3)"
            using lt ri J R sh pv Some by (subst attempts_loop.simps) simp
          show ?thesis unfolding l r by simp
        qed
      qed
    qed
  qed
qed

lemma pieces_loop_st_refines:
  assumes "distinct refs"
  shows "map_option (\<lambda>(res, g', st'). (res, g')) (pieces_loop_st n lib k refs g st)
           = map_option (\<lambda>(res, counts, tb, g'). (res, g')) (pieces_loop n lib k (grid_of st refs) g)"
proof (induction k arbitrary: g st)
  case 0
  then show ?case by simp
next
  case (Suc k)
  note a = attempts_loop_st_refines[OF assms, of n lib 0 g st]
  show ?case
  proof (cases "attempts_loop_st n lib refs 0 g st")
    case None
    then have "attempts_loop n lib (grid_of st refs) 0 g = None" using a by simp
    then show ?thesis using None by simp
  next
    case (Some x)
    obtain found cnt g1 st1 where x: "x = (found, cnt, g1, st1)" by (cases x)
    have pa: "attempts_loop n lib (grid_of st refs) 0 g = Some (found, grid_of st1 refs, cnt, g1)"
      using a Some x by simp
    obtain foundPiece g2 where
      fp: "(case found of Some p \<Rightarrow> (p, g1) | None \<Rightarrow> fallback_piece lib g1) = (foundPiece, g2)"
      by (cases "case found of Some p \<Rightarrow> (p, g1) | None \<Rightarrow> fallback_piece lib g1")
    note IH = Suc.IH[of g2 st1]
    show ?thesis
    proof (cases "pieces_loop_st n lib k refs g2 st1")
      case None
      then have "pieces_loop n lib k (grid_of st1 refs) g2 = None" using IH by simp
      then show ?thesis using Some x pa fp None by simp
    next
      case (Some y)
      obtain res g3 st2 where y: "y = (res, g3, st2)" by (cases y)
      from IH Some y obtain counts tb where
        "pieces_loop n lib k (grid_of st1 refs) g2 = Some (res, counts, tb, g3)"
        by (cases "pieces_loop n lib k (grid_of st1 refs) g2") auto
      then show ?thesis
        using \<open>attempts_loop_st n lib refs 0 g st = Some x\<close> x pa fp Some y by simp
    qed
  qed
qed

lemma clone_rows_content:
  "clone_rows st refs = (copies, st') \<Longrightarrow> \<forall>a \<in> set refs. a < next_addr st \<Longrightarrow>
   grid_of st' copies = grid_of st refs"
proof (induction refs arbitrary: st copies st')
  case Nil
  then show ?case by (simp add: grid_of_def)
next
  case (Cons row rest)
  define st1 where "st1 = st\<lparr>rows_at := (rows_at st)(next_addr st := rows_at st row),
                              next_addr := Suc (next_addr st)\<rparr>"
  obtain cs st2 where c: "clone_rows st1 rest = (cs, st2)" by (cases "clone_rows st1 rest")
  from Cons.prems(1) have e: "copies = next_addr st # cs" "st' = st2"
    by (simp_all add: Let_def st1_def[symmetric] c)
  have b1: "\<forall>a \<in> set rest. a < next_addr st1"
    using Cons.prems(2) by (auto simp: st1_def less_Suc_eq)
  note ih = Cons.IH[OF c b1]
  note f = clone_rows_fresh[OF c]
  have "rows_at st2 (next_addr st) = rows_at st1 (next_addr st)"
    using f by (simp add: st1_def)
  then have h: "rows_at st2 (next_addr st) = rows_at st row" by (simp add: st1_def)
  have "grid_of st1 rest = grid_of st rest"
    using Cons.prems(2) by (auto simp: grid_of_def st1_def)
  then show ?case
    unfolding e using ih h by (simp add: grid_of_def)
qed

text \<open>
  The generator on the store computes what the generator on values computes on the grid
  that the references hold.
\<close>

lemma generatePieces_st_refines:
  assumes "\<forall>a \<in> set B. a < next_addr st"
  shows "map_option (\<lambda>(res, g', st'). (res, g')) (generatePieces_st n lib k B g st)
           = generatePieces n lib k (grid_of st B) g"
proof -
  obtain tempBoard st1 where c: "clone_rows st B = (tempBoard, st1)"
    by (cases "clone_rows st B")
  have d: "distinct tempBoard" using clone_rows_fresh[OF c] by simp
  have g: "grid_of st1 tempBoard = grid_of st B" using clone_rows_content[OF c assms] .
  have "generatePieces n lib k (grid_of st B) g
          = map_option (\<lambda>(res, counts, tb, g'). (res, g')) (pieces_loop n lib k (grid_of st B) g)"
    by (cases "pieces_loop n lib k (grid_of st B) g") (auto simp: generatePieces_def)
  then show ?thesis
    using pieces_loop_st_refines[OF d, of n lib k g st1] by (simp add: generatePieces_st_def c g)
qed

lemma grid_of_store8: "length b = 8 \<Longrightarrow> grid_of (store8 b) [0..<8] = b"
  by (auto simp: grid_of_def store8_def intro!: nth_equalityI)

section \<open>C1: the score of a placement\<close>

text \<open>
  Claim C1, as amended. A place request that succeeds adds to the session's score the number
  of filled cells of the piece when no line is complete, and that number plus
  \<open>lines * 10 + 2 * lines * (lines - 1)\<close> when \<open>lines > 0\<close>, where \<open>lines\<close> is the number
  of rows plus the number of columns that \<open>checkLines\<close> reports on the grid after the
  placement (on a well-formed grid: its full rows and its full columns, a cell in both
  counted in both). The bonus of 1, 2, 3 and 4 lines is 10, 24, 42 and 64.
\<close>

theorem place_score:
  assumes "place_handler gameSessions req = Some (PlaceSuccess res, S')"
  shows "\<exists>sid pm x y gs gs' bm1.
      req_sessionId req = Some sid \<and> req_piece req = Some pm \<and> req_x req = Some x \<and> req_y req = Some y
      \<and> gameSessions sid = Some gs \<and> S' sid = Some gs' \<and> res_score res = score gs'
      \<and> placePiece (boardManager gs) pm x y = Some (True, bm1)
      \<and> checkLines bm1 = Some (lineCleared res)
      \<and> (line_count (lineCleared res) = 0 \<longrightarrow> score gs' = score gs + blockCount pm)
      \<and> (line_count (lineCleared res) > 0 \<longrightarrow>
            score gs' = score gs + blockCount pm
               + (line_count (lineCleared res) * 10
                  + 2 * line_count (lineCleared res) * (line_count (lineCleared res) - 1)))
      \<and> (valid_board (boardSize (boardManager gs)) (board (boardManager gs)) \<and> valid_piece pm \<longrightarrow>
            rows (lineCleared res) = full_rows (boardSize bm1) (board bm1)
            \<and> cols (lineCleared res) = full_cols (boardSize bm1) (board bm1))
      \<and> line_clear_score 1 = 10 \<and> line_clear_score 2 = 24
      \<and> line_clear_score 3 = 42 \<and> line_clear_score 4 = 64"
proof -
  from place_handler_success[OF assms] obtain sid pm x y gs bm1 bm2 where
    h: "req_sessionId req = Some sid" "req_piece req = Some pm" "req_x req = Some x" "req_y req = Some y"
      "gameSessions sid = Some gs"
      "canPlace (boardManager gs) pm x y = Some True"
      "placePiece (boardManager gs) pm x y = Some (True, bm1)"
      "checkLines bm1 = Some (lineCleared res)"
      "lineClearScore res =
          (if line_count (lineCleared res) > 0 then line_clear_score (line_count (lineCleared res)) else 0)"
      "res_score res = score gs + blockCount pm * BASE_POINTS_PER_BLOCK + lineClearScore res"
      "S' = gameSessions(sid \<mapsto> gs\<lparr>score := res_score res, currentPieces := res_pieces res,
                                      boardManager := bm2\<rparr>)"
    by blast
  define gs' where "gs' = gs\<lparr>score := res_score res, currentPieces := res_pieces res,
                                      boardManager := bm2\<rparr>"
  have s: "S' sid = Some gs'" "res_score res = score gs'"
    using h(11) by (simp_all add: gs'_def)
  have z: "score gs' = score gs + blockCount pm" if "line_count (lineCleared res) = 0"
    using that h(9,10) s(2) by (simp add: BASE_POINTS_PER_BLOCK_def)
  have p: "score gs' = score gs + blockCount pm
               + (line_count (lineCleared res) * 10
                  + 2 * line_count (lineCleared res) * (line_count (lineCleared res) - 1))"
    if "line_count (lineCleared res) > 0"
    using that h(9,10) s(2)
    by (simp add: BASE_POINTS_PER_BLOCK_def line_clear_score_def LINE_CLEAR_BASE_POINTS_def
          LINE_CLEAR_MULTIPLIER_def)
  have v: "rows (lineCleared res) = full_rows (boardSize bm1) (board bm1)
            \<and> cols (lineCleared res) = full_cols (boardSize bm1) (board bm1)"
    if vb: "valid_board (boardSize (boardManager gs)) (board (boardManager gs))" and vp: "valid_piece pm"
  proof -
    from placePiece_ok[OF vb vp h(6)] h(7) obtain brd' where
      "bm1 = (boardManager gs)\<lparr>board := brd'\<rparr>" "valid_board (boardSize (boardManager gs)) brd'"
      by auto
    then have "valid_board (boardSize bm1) (board bm1)" by simp
    from checkLines_valid[OF this] h(8) show ?thesis
      by (cases "lineCleared res") auto
  qed
  have l: "line_clear_score 1 = 10 \<and> line_clear_score 2 = 24
      \<and> line_clear_score 3 = 42 \<and> line_clear_score 4 = 64"
    using line_clear_score_values by simp
  show ?thesis
    apply (rule exI[of _ sid], rule exI[of _ pm], rule exI[of _ x], rule exI[of _ y])
    apply (rule exI[of _ gs], rule exI[of _ gs'], rule exI[of _ bm1])
    using h(1-5,7,8) s z p v l by simp
qed

text \<open>
  The square of four cells that completes rows 3 and 4 and columns 3 and 4 of
  \<open>four_lines_board\<close> takes the score from 0 to 68.
\<close>

theorem place_score_witness:
  "\<exists>res S'. place_handler [''s1'' \<mapsto> four_lines_session]
        \<lparr>req_sessionId = Some ''s1'', req_piece = Some P11, req_x = Some 3, req_y = Some 3\<rparr>
      = Some (PlaceSuccess res, S')
    \<and> lineCleared res = \<lparr>rows = [3, 4], cols = [3, 4]\<rparr>
    \<and> line_count (lineCleared res) = 4 \<and> blockCount P11 = 4
    \<and> score four_lines_session = 0 \<and> res_score res = 68"
proof -
  let ?S = "[''s1'' \<mapsto> four_lines_session]"
  let ?req = "\<lparr>req_sessionId = Some ''s1'', req_piece = Some P11, req_x = Some 3, req_y = Some 3\<rparr>"
  let ?gs = four_lines_session
  let ?ld = "\<lparr>rows = [3, 4], cols = [3, 4]\<rparr>"
  define bm1 where "bm1 = snd (the (placePiece (boardManager ?gs) P11 3 3))"
  define bm2 where "bm2 = the (clearLines bm1 ?ld)"
  have 1: "''s1'' \<noteq> []" "?S ''s1'' = Some ?gs" by simp_all
  have 2: "find_piece_loop (currentPieces ?gs) P11 0 = Some 0" by code_simp
  have 3: "js_index P11 0 = Some [1, 1]" by code_simp
  have 4: "\<not> (3 < (0::int) \<or> 3 < (0::int) \<or> 3 + int (length P11) > int BOARD_SIZE
              \<or> 3 + int (length [1::nat, 1]) > int BOARD_SIZE)" by code_simp
  have 5: "canPlace (boardManager ?gs) P11 3 3 = Some True" by code_simp
  have 6: "placePiece (boardManager ?gs) P11 3 3 = Some (True, bm1)"
    unfolding bm1_def by code_simp
  have 7: "checkLines bm1 = Some ?ld" unfolding bm1_def by code_simp
  have 8: "if line_count ?ld > 0 then clearLines bm1 ?ld = Some bm2 else bm2 = bm1"
    unfolding bm2_def bm1_def by code_simp
  have 9: "if length (active_pieces ((currentPieces ?gs)[0 := None])) > 0
         then game_over_loop (boardSize bm2) (board bm2) (active_pieces ((currentPieces ?gs)[0 := None]))
                = Some False
         else False = False"
    unfolding bm2_def bm1_def by code_simp
  from place_handler_run[where sid = "''s1''" and gameSessions = ?S, OF 1 2 3 4 5 6 7 8 9] obtain res S' where
    r: "place_handler ?S ?req = Some (PlaceSuccess res, S')" "lineCleared res = ?ld"
    by blast
  have lc: "line_count (lineCleared res) = 4" by (simp add: r(2) line_count_def)
  have bc: "blockCount P11 = 4" by code_simp
  have sc: "score ?gs = 0" by code_simp
  from place_score[OF r(1)] obtain sid pm gs gs' where
    t: "req_sessionId ?req = Some sid" "req_piece ?req = Some pm"
    "?S sid = Some gs" "S' sid = Some gs'" "res_score res = score gs'"
    "line_count (lineCleared res) > 0 \<longrightarrow>
            score gs' = score gs + blockCount pm
               + (line_count (lineCleared res) * 10
                  + 2 * line_count (lineCleared res) * (line_count (lineCleared res) - 1))"
    by (elim exE conjE) (rule that; assumption)
  from t(1,2,3) have "sid = ''s1''" "pm = P11" "gs = four_lines_session"
    by simp_all
  with t(5,6)
  have "res_score res = 68"
    using lc bc sc by simp
  then show ?thesis using r lc bc sc by blast
qed

text \<open>
  The claim as stated gives 66 for four lines; the handler's expression gives
  \<open>40 + 2 * 4 * 3 = 64\<close>.
\<close>

theorem four_lines_bonus_counterexample:
  "line_clear_score 4 = 64 \<and> line_clear_score 4 \<noteq> 66"
  by (simp add: line_clear_score_def LINE_CLEAR_BASE_POINTS_def LINE_CLEAR_MULTIPLIER_def)

section \<open>C2: placePiece follows canPlace\<close>

text \<open>
  Claim C2. On a grid of the board's size and for a rectangular piece, \<open>canPlace\<close> returns
  (it does not throw). If it returns false, \<open>placePiece\<close> returns false and the board
  manager is unchanged. If it returns true, \<open>placePiece\<close> returns true and the new grid
  holds 1 in every cell covered by a filled cell of the piece at its offset from
  \<open>(row, col)\<close>, and the old value in every other cell.
\<close>

theorem placePiece_follows_canPlace:
  assumes "valid_board (boardSize bm) (board bm)" and "valid_piece piece"
  shows "canPlace bm piece row col \<noteq> None \<and>
    (canPlace bm piece row col = Some False \<longrightarrow> placePiece bm piece row col = Some (False, bm)) \<and>
    (canPlace bm piece row col = Some True \<longrightarrow>
       (\<exists>brd'. placePiece bm piece row col = Some (True, bm\<lparr>board := brd'\<rparr>)
          \<and> valid_board (boardSize bm) brd'
          \<and> (\<forall>i < boardSize bm. \<forall>j < boardSize bm.
                brd' ! i ! j = (if covers piece (nat row) (nat col) i j then 1 else board bm ! i ! j))))"
proof (intro conjI impI)
  show "canPlace bm piece row col \<noteq> None"
    by (simp add: canPlace_valid[OF assms])
next
  assume "canPlace bm piece row col = Some False"
  then show "placePiece bm piece row col = Some (False, bm)"
    by (simp add: placePiece_def)
next
  assume "canPlace bm piece row col = Some True"
  then show "\<exists>brd'. placePiece bm piece row col = Some (True, bm\<lparr>board := brd'\<rparr>)
          \<and> valid_board (boardSize bm) brd'
          \<and> (\<forall>i < boardSize bm. \<forall>j < boardSize bm.
                brd' ! i ! j = (if covers piece (nat row) (nat col) i j then 1 else board bm ! i ! j))"
    by (rule placePiece_ok[OF assms])
qed

text \<open>
  The small L at row 2, column 3 of the empty grid is placed; at row 7 it leaves the grid
  and nothing changes.
\<close>

theorem placePiece_follows_canPlace_witness:
  "valid_board (boardSize empty8) (board empty8) \<and> valid_piece P6
   \<and> canPlace empty8 P6 2 3 = Some True
   \<and> (\<exists>brd'. placePiece empty8 P6 2 3 = Some (True, empty8\<lparr>board := brd'\<rparr>)
         \<and> brd' ! 2 ! 3 = 1 \<and> brd' ! 2 ! 4 = 0 \<and> brd' ! 3 ! 3 = 1 \<and> brd' ! 3 ! 4 = 1
         \<and> brd' ! 0 ! 0 = 0)
   \<and> canPlace empty8 P6 7 3 = Some False
   \<and> placePiece empty8 P6 7 3 = Some (False, empty8)"
proof -
  have vb: "valid_board (boardSize empty8) (board empty8)" by code_simp
  have vp: "valid_piece P6" by code_simp
  have c1: "canPlace empty8 P6 2 3 = Some True" by code_simp
  have c2: "canPlace empty8 P6 7 3 = Some False" by code_simp
  have n: "boardSize empty8 = 8" by code_simp
  have cov: "covers P6 (nat 2) (nat 3) 2 3" "\<not> covers P6 (nat 2) (nat 3) 2 4"
    "covers P6 (nat 2) (nat 3) 3 3" "covers P6 (nat 2) (nat 3) 3 4"
    "\<not> covers P6 (nat 2) (nat 3) 0 0"
    by code_simp+
  have old: "board empty8 ! 2 ! 4 = 0" "board empty8 ! 0 ! 0 = 0" by code_simp+
  from placePiece_follows_canPlace[OF vb vp, of 2 3] c1 obtain brd' where
    p: "placePiece empty8 P6 2 3 = Some (True, empty8\<lparr>board := brd'\<rparr>)"
    and cells: "\<forall>i < boardSize empty8. \<forall>j < boardSize empty8.
        brd' ! i ! j = (if covers P6 (nat 2) (nat 3) i j then 1 else board empty8 ! i ! j)"
    by blast
  have "brd' ! 2 ! 3 = 1" "brd' ! 2 ! 4 = 0" "brd' ! 3 ! 3 = 1" "brd' ! 3 ! 4 = 1" "brd' ! 0 ! 0 = 0"
    using cells cov old by (simp_all add: n)
  with p have ex: "\<exists>brd'. placePiece empty8 P6 2 3 = Some (True, empty8\<lparr>board := brd'\<rparr>)
         \<and> brd' ! 2 ! 3 = 1 \<and> brd' ! 2 ! 4 = 0 \<and> brd' ! 3 ! 3 = 1 \<and> brd' ! 3 ! 4 = 1
         \<and> brd' ! 0 ! 0 = 0" by blast
  from placePiece_follows_canPlace[OF vb vp, of 7 3] c2
  have f: "placePiece empty8 P6 7 3 = Some (False, empty8)" by blast
  show ?thesis using vb vp c1 ex c2 f by blast
qed

section \<open>C3: game over after a placement and after new pieces\<close>

text \<open>
  Claim C3 says that the session reports game over, after a placement and after new pieces
  alike, exactly when no piece that is left has a valid position. For a placement this is
  lemma \<open>place_reports_game_over\<close> above. The handler of \<open>requestNewPieces\<close> does not
  evaluate it: the theorem below runs it on a session whose grid is \<open>x_board\<close>, with a
  random source that always draws 0. The three pieces it deals and stores are bars of
  four; none has a valid position on the grid (\<open>game_over_loop\<close> says so), and the
  response holds the pieces and no word about the game being over.
\<close>

theorem replenish_reports_no_game_over:
  "requestNewPieces_handler [''s1'' \<mapsto> stuck_session] (Some ''s1'') []
     = Some (NewPieces [stuck_piece, stuck_piece, stuck_piece],
             [''s1'' \<mapsto> stuck_session\<lparr>currentPieces :=
                 [Some stuck_piece, Some stuck_piece, Some stuck_piece]\<rparr>],
             [])
   \<and> game_over_loop BOARD_SIZE (board x_board) [stuck_piece, stuck_piece, stuck_piece] = Some True"
proof -
  have "game_over_loop BOARD_SIZE (board x_board) [stuck_piece, stuck_piece, stuck_piece] = Some True"
    using x_board_no_bar by (simp add: stuck_piece_def)
  then show ?thesis using stuck_replenish by simp
qed

section \<open>C4: the number of distinct rotations\<close>

text \<open>
  Claim C4, as amended. \<open>getAllRotations\<close> returns 1 matrix for the two squares and for
  I1, 2 matrices for I2, I3, I4 and Z, and 4 matrices for the three L shapes and for T.
\<close>

theorem rotation_counts:
  "map_option length (getAllRotations P10) = Some 1
   \<and> map_option length (getAllRotations P11) = Some 1
   \<and> map_option length (getAllRotations P4) = Some 1
   \<and> map_option length (getAllRotations P3) = Some 2
   \<and> map_option length (getAllRotations P1) = Some 2
   \<and> map_option length (getAllRotations P2) = Some 2
   \<and> map_option length (getAllRotations P9) = Some 2
   \<and> map_option length (getAllRotations P5) = Some 4
   \<and> map_option length (getAllRotations P6) = Some 4
   \<and> map_option length (getAllRotations P7) = Some 4
   \<and> map_option length (getAllRotations P8) = Some 4"
  by code_simp

text \<open>
  The claim as stated gives I4 four distinct rotations. A bar turned by 180 degrees is the
  same bar: \<open>getAllRotations\<close> returns the horizontal and the vertical bar only.
\<close>

theorem rotation_count_I4_counterexample:
  "getAllRotations P1 = Some [[[1, 1, 1, 1]], [[1], [1], [1], [1]]]
   \<and> map_option length (getAllRotations P1) \<noteq> Some 4"
  by code_simp

section \<open>C5: the simulation is place, detect, clear\<close>

text \<open>
  Claim C5. On a grid of the board's size, for a rectangular piece and a position where
  \<open>canPlace\<close> holds, \<open>simulatePlaceAndClear\<close> applied to the grid yields the grid that
  \<open>placePiece\<close>, then \<open>checkLines\<close>, then \<open>clearLines\<close> of the detected lines yield on it;
  and both do yield a grid.
\<close>

theorem simulate_refines_place_detect_clear:
  assumes "valid_board (boardSize bm) (board bm)" and "valid_piece piece"
    and "canPlace bm piece row col = Some True"
  shows "simulatePlaceAndClear (boardSize bm) (board bm) piece (nat row) (nat col)
           = place_detect_clear bm piece row col
         \<and> (\<exists>b'. place_detect_clear bm piece row col = Some b' \<and> valid_board (boardSize bm) b')"
proof -
  have f: "fits (boardSize bm) piece row col"
    using assms(3) by (simp add: canPlace_valid[OF assms(1,2)])
  then have f': "fits (boardSize bm) piece (int (nat row)) (int (nat col))"
    by (simp add: fits_def)
  from simulate_valid[OF assms(1,2) f'] obtain b1 b2 where
    s: "place_loop (board bm) piece (nat row) (nat col)
          (List.product [0..<length piece] [0..<length (hd piece)]) = Some b1"
       "simulatePlaceAndClear (boardSize bm) (board bm) piece (nat row) (nat col) = Some b2"
       "cleared (boardSize bm) b1 b2" by blast
  have eq: "place_detect_clear bm piece row col
       = simulatePlaceAndClear (boardSize bm) (board bm) piece (nat row) (nat col)"
    using assms(3) valid_pieceD[OF assms(2)]
    by (simp add: place_detect_clear_def placePiece_def simulate_as_loops checkLines_def
          clearLines_def split: bind_split)
  show ?thesis
    using eq s(2,3) by (auto simp: cleared_def)
qed

text \<open>
  The single block at row 5, column 7 of \<open>cross_board\<close> completes a row and a column; both
  ways of computing leave the empty grid.
\<close>

theorem simulate_refines_place_detect_clear_witness:
  "valid_board (boardSize cross_board) (board cross_board) \<and> valid_piece P4
   \<and> canPlace cross_board P4 5 7 = Some True
   \<and> simulatePlaceAndClear (boardSize cross_board) (board cross_board) P4 (nat 5) (nat 7)
       = Some (board empty8)
   \<and> place_detect_clear cross_board P4 5 7 = Some (board empty8)"
proof -
  have vb: "valid_board (boardSize cross_board) (board cross_board)" by code_simp
  have vp: "valid_piece P4" by code_simp
  have c: "canPlace cross_board P4 5 7 = Some True" by code_simp
  have s: "simulatePlaceAndClear (boardSize cross_board) (board cross_board) P4 (nat 5) (nat 7)
       = Some (board empty8)" by code_simp
  from simulate_refines_place_detect_clear[OF vb vp c] s
  have "place_detect_clear cross_board P4 5 7 = Some (board empty8)" by simp
  then show ?thesis using vb vp c s by blast
qed

section \<open>C6: generatePieces returns three pieces\<close>



section \<open>C7: new pieces only when every slot is empty\<close>

text \<open>
  Claim C7. For a session that exists: when a slot still holds a piece the request is
  rejected with the number of pieces left (at least one), and the session store and the
  random source are returned as they were; and a request that succeeds found every slot
  empty.
\<close>

theorem replenish_gating:
  assumes "gameSessions sid = Some gs" and "sid \<noteq> []"
  shows "(\<not> list_all (\<lambda>p. p = None) (currentPieces gs) \<longrightarrow>
            requestNewPieces_handler gameSessions (Some sid) g
              = Some (NewPiecesError
                        (NotAllUsed (length (filter (\<lambda>p. p \<noteq> None) (currentPieces gs)))),
                      gameSessions, g)
            \<and> 0 < length (filter (\<lambda>p. p \<noteq> None) (currentPieces gs)))
       \<and> (\<forall>ps S' g'. requestNewPieces_handler gameSessions (Some sid) g = Some (NewPieces ps, S', g')
            \<longrightarrow> list_all (\<lambda>p. p = None) (currentPieces gs))"
proof (intro conjI allI impI)
  assume n: "\<not> list_all (\<lambda>p. p = None) (currentPieces gs)"
  then show "requestNewPieces_handler gameSessions (Some sid) g
              = Some (NewPiecesError
                        (NotAllUsed (length (filter (\<lambda>p. p \<noteq> None) (currentPieces gs)))),
                      gameSessions, g)"
    using assms by (simp add: requestNewPieces_handler_def)
  from n show "0 < length (filter (\<lambda>p. p \<noteq> None) (currentPieces gs))"
    by (auto simp: list_all_iff filter_empty_conv)
next
  fix ps S' g'
  assume "requestNewPieces_handler gameSessions (Some sid) g = Some (NewPieces ps, S', g')"
  then show "list_all (\<lambda>p. p = None) (currentPieces gs)"
    using assms by (auto simp: requestNewPieces_handler_def Let_def split: if_splits)
qed

text \<open>
  A session with one piece left is refused with \<open>remainingPieces: 1\<close>; a session with no
  piece left is served.
\<close>

theorem replenish_gating_witness:
  "requestNewPieces_handler [''s1'' \<mapsto> last_slot_session] (Some ''s1'') [3, 1, 4]
     = Some (NewPiecesError (NotAllUsed 1), [''s1'' \<mapsto> last_slot_session], [3, 1, 4])
   \<and> requestNewPieces_handler [''s1'' \<mapsto> stuck_session] (Some ''s1'') []
     = Some (NewPieces [stuck_piece, stuck_piece, stuck_piece],
             [''s1'' \<mapsto> stuck_session\<lparr>currentPieces :=
                 [Some stuck_piece, Some stuck_piece, Some stuck_piece]\<rparr>],
             [])
   \<and> list_all (\<lambda>p. p = None) (currentPieces stuck_session)"
proof -
  have 1: "[''s1'' \<mapsto> last_slot_session] ''s1'' = Some last_slot_session" "''s1'' \<noteq> []"
    by simp_all
  have n: "\<not> list_all (\<lambda>p. p = None) (currentPieces last_slot_session)"
    by (simp add: last_slot_session_def)
  have k: "length (filter (\<lambda>p. p \<noteq> None) (currentPieces last_slot_session)) = 1"
    by (simp add: last_slot_session_def)
  from replenish_gating[where gameSessions = "[''s1'' \<mapsto> last_slot_session]" and sid = "''s1''"
      and g = "[3, 1, 4]", OF 1] n k
  have a: "requestNewPieces_handler [''s1'' \<mapsto> last_slot_session] (Some ''s1'') [3, 1, 4]
     = Some (NewPiecesError (NotAllUsed 1), [''s1'' \<mapsto> last_slot_session], [3, 1, 4])"
    by simp
  have 2: "[''s1'' \<mapsto> stuck_session] ''s1'' = Some stuck_session" by simp
  from replenish_gating[where gameSessions = "[''s1'' \<mapsto> stuck_session]" and sid = "''s1''"
      and g = "[]", OF 2 1(2)] stuck_replenish
  have b: "list_all (\<lambda>p. p = None) (currentPieces stuck_session)"
    by blast
  show ?thesis using a stuck_replenish b by simp
qed

section \<open>C8: generatePieces leaves its grid unchanged\<close>

text \<open>
  Claim C8. Whatever the size, the library, the count \<open>k\<close> and the random source: when
  \<open>generatePieces\<close> returns, every row array that existed before the call holds what it
  held, so the grid \<open>B\<close> it was given is unchanged. All its writes go to the rows it cloned.
  By lemma \<open>generatePieces_st_refines\<close> the pieces it returns are those of the generator
  on values.
\<close>

theorem generatePieces_frame:
  assumes "generatePieces_st n lib k B g st = Some (result, g', st')"
    and "\<forall>a \<in> set B. a < next_addr st"
  shows "grid_of st' B = grid_of st B \<and> (\<forall>a < next_addr st. rows_at st' a = rows_at st a)"
proof -
  obtain tempBoard st1 where c: "clone_rows st B = (tempBoard, st1)"
    by (cases "clone_rows st B")
  from assms(1) have p: "pieces_loop_st n lib k tempBoard g st1 = Some (result, g', st')"
    by (simp add: generatePieces_st_def c)
  note f = clone_rows_fresh[OF c]
  note w = pieces_loop_st_frame[OF p]
  have "rows_at st' a = rows_at st a" if "a < next_addr st" for a
  proof -
    have "a \<notin> set tempBoard" using f that by auto
    then have "rows_at st' a = rows_at st1 a" using w by (simp add: writes_only_def)
    then show ?thesis using f that by simp
  qed
  then show ?thesis
    using assms(2) by (simp add: grid_of_def)
qed

text \<open>
  The empty grid in a store of eight rows: the generator returns three pieces (it places a
  piece on its working copy each time) and the eight rows still hold the empty grid.
\<close>

theorem generatePieces_frame_witness:
  "list_all (\<lambda>a. a < next_addr (store8 (board empty8))) [0..<8]
   \<and> grid_of (store8 (board empty8)) [0..<8] = board empty8
   \<and> (\<exists>result g' st'.
         generatePieces_st BOARD_SIZE RAW_SHAPES PIECES_PER_ROUND [0..<8] [3, 1, 4] (store8 (board empty8))
           = Some (result, g', st')
         \<and> length result = 3
         \<and> grid_of st' [0..<8] = board empty8)"
proof -
  let ?st = "store8 (board empty8)"
  have a: "\<forall>a \<in> set [0..<8]. a < next_addr ?st" by (simp add: store8_def)
  have l: "length (board empty8) = 8" by code_simp
  have g: "grid_of ?st [0..<8] = board empty8" using grid_of_store8[OF l] .
  have lib: "list_all valid_piece RAW_SHAPES" "RAW_SHAPES \<noteq> []"
    using RAW_SHAPES_valid by simp_all
  from generatePieces_valid[OF lib empty8_valid, of PIECES_PER_ROUND "[3, 1, 4]"]
  obtain result g' where
    p: "generatePieces BOARD_SIZE RAW_SHAPES PIECES_PER_ROUND (board empty8) [3, 1, 4] = Some (result, g')"
    "length result = PIECES_PER_ROUND" by blast
  from generatePieces_st_refines[OF a, of BOARD_SIZE RAW_SHAPES PIECES_PER_ROUND "[3, 1, 4]"] p(1)
  obtain st' where
    s: "generatePieces_st BOARD_SIZE RAW_SHAPES PIECES_PER_ROUND [0..<8] [3, 1, 4] ?st
          = Some (result, g', st')"
    unfolding g
    by (cases "generatePieces_st BOARD_SIZE RAW_SHAPES PIECES_PER_ROUND [0..<8] [3, 1, 4] ?st") auto
  from generatePieces_frame[OF s a] have "grid_of st' [0..<8] = board empty8"
    using g by simp
  then show ?thesis
    using a g s p(2) by (auto simp: PIECES_PER_ROUND_def list_all_iff)
qed

section \<open>C9: saving the top rank\<close>




section \<open>C10: no game over when the last slot is used\<close>

text \<open>
  Claim C10. When a place request succeeds and every slot is empty afterwards, the response
  says \<open>isGameOver = false\<close>, whatever the grid; the slots of the stored session are those
  of the response.
\<close>

theorem last_slot_not_game_over:
  assumes "place_handler gameSessions req = Some (PlaceSuccess res, S')"
    and "list_all (\<lambda>p. p = None) (res_pieces res)"
  shows "isGameOver res = False
         \<and> (\<exists>sid gs'. req_sessionId req = Some sid \<and> S' sid = Some gs'
               \<and> currentPieces gs' = res_pieces res)"
proof -
  have "active_pieces (res_pieces res) = []"
    using assms(2) by (induction "res_pieces res") (auto simp: active_pieces_def list_all_iff filter_empty_conv)
  with place_handler_success[OF assms(1)] show ?thesis
    by auto
qed

text \<open>
  On \<open>x_board\<close> the last piece, a single block, goes to the corner. No line is complete and
  the bar of four has no position on the grid that results, yet the response says the game
  is not over.
\<close>

theorem last_slot_not_game_over_witness:
  "\<exists>res S'. place_handler [''s1'' \<mapsto> last_slot_session]
        \<lparr>req_sessionId = Some ''s1'', req_piece = Some P4, req_x = Some 0, req_y = Some 0\<rparr>
      = Some (PlaceSuccess res, S')
    \<and> list_all (\<lambda>p. p = None) (res_pieces res)
    \<and> isGameOver res = False
    \<and> findValidPosition BOARD_SIZE (res_board res) P1 = Some None"
proof -
  let ?S = "[''s1'' \<mapsto> last_slot_session]"
  let ?req = "\<lparr>req_sessionId = Some ''s1'', req_piece = Some P4, req_x = Some 0, req_y = Some 0\<rparr>"
  let ?gs = last_slot_session
  let ?ld = "\<lparr>rows = [], cols = []\<rparr>"
  define bm1 where "bm1 = snd (the (placePiece (boardManager ?gs) P4 0 0))"
  have 1: "''s1'' \<noteq> []" "?S ''s1'' = Some ?gs" by simp_all
  have 2: "find_piece_loop (currentPieces ?gs) P4 0 = Some 1" by code_simp
  have 3: "js_index P4 0 = Some [1]" by code_simp
  have 4: "\<not> (0 < (0::int) \<or> 0 < (0::int) \<or> 0 + int (length P4) > int BOARD_SIZE
              \<or> 0 + int (length [1::nat]) > int BOARD_SIZE)" by code_simp
  have 5: "canPlace (boardManager ?gs) P4 0 0 = Some True" by code_simp
  have 6: "placePiece (boardManager ?gs) P4 0 0 = Some (True, bm1)"
    unfolding bm1_def by code_simp
  have 7: "checkLines bm1 = Some ?ld" unfolding bm1_def by code_simp
  have 8: "if line_count ?ld > 0 then clearLines bm1 ?ld = Some bm1 else bm1 = bm1"
    by (simp add: line_count_def)
  have 9: "if length (active_pieces ((currentPieces ?gs)[1 := None])) > 0
         then game_over_loop (boardSize bm1) (board bm1) (active_pieces ((currentPieces ?gs)[1 := None]))
                = Some False
         else False = False"
    by code_simp
  from place_handler_run[where sid = "''s1''" and gameSessions = ?S, OF 1 2 3 4 5 6 7 8 9] obtain res S' where
    r: "place_handler ?S ?req = Some (PlaceSuccess res, S')" "res_board res = board bm1"
    by blast
  from place_handler_success[OF r(1)] have "res_pieces res = (currentPieces ?gs)[1 := None]"
    using 2 by auto
  then have e: "list_all (\<lambda>p. p = None) (res_pieces res)"
    by (simp add: last_slot_session_def)
  have f: "findValidPosition BOARD_SIZE (res_board res) P1 = Some None"
    unfolding r(2) bm1_def by code_simp
  from last_slot_not_game_over[OF r(1) e] have "isGameOver res = False" by simp
  then show ?thesis using r(1) e f by blast
qed

end
